theory Spec2Isabelle
  imports Complex_Main
begin

section \<open>Python strings\<close>

text \<open>
  A Python \<open>str\<close> is a sequence of Unicode code points; the extraction code tests
  code points (whitespace, decimal digits, the separators U+300C, U+300D, U+21D2), so a
  string is modelled as the list of its code points. ASCII literals are written with
  \<open>ascii\<close>; other literals are given by their code points.
\<close>

type_synonym pystr = "nat list"

definition ascii :: "string \<Rightarrow> pystr" where
  "ascii s = map of_char s"

text \<open>
  \<open>str.isspace\<close> for one code point, which is also what \<open>str.strip()\<close> removes and what
  \<open>\s\<close> matches in a \<open>str\<close> pattern: U+0009..U+000D, U+001C..U+0020, U+0085, U+00A0,
  U+1680, U+2000..U+200A, U+2028, U+2029, U+202F, U+205F and U+3000 (the ideographic
  space).
\<close>

definition is_space :: "nat \<Rightarrow> bool" where
  "is_space c \<longleftrightarrow>
     (9 \<le> c \<and> c \<le> 13) \<or> (28 \<le> c \<and> c \<le> 32) \<or> c = 133 \<or> c = 160 \<or> c = 5760 \<or>
     (8192 \<le> c \<and> c \<le> 8202) \<or> c = 8232 \<or> c = 8233 \<or> c = 8239 \<or> c = 8287 \<or>
     c = 12288"

text \<open>
  The decimal digits (\<open>str.isdecimal\<close>, the class \<open>\d\<close> of a \<open>str\<close> pattern, and the
  characters \<open>int()\<close> accepts) come in runs of ten consecutive code points with the values
  0 to 9; \<open>nd_zeros\<close> lists the code point of the zero of each run (Unicode 14).
\<close>

definition nd_zeros :: "nat list" where
  "nd_zeros =
    [48, 1632, 1776, 1984, 2406, 2534, 2662, 2790, 2918, 3046, 3174, 3302, 3430, 3558,
     3664, 3792, 3872, 4160, 4240, 6112, 6160, 6470, 6608, 6784, 6800, 6992, 7088, 7232,
     7248, 42528, 43216, 43264, 43472, 43504, 43600, 44016, 65296, 66720, 68912, 69734,
     69872, 69942, 70096, 70384, 70736, 70864, 71248, 71360, 71472, 71904, 72016, 72784,
     73040, 73120, 92768, 92864, 93008, 120782, 120792, 120802, 120812, 120822, 123200,
     123632, 125264, 130032]"

definition digit_zero :: "nat \<Rightarrow> nat option" where
  "digit_zero c = find (\<lambda>z. z \<le> c \<and> c < z + 10) nd_zeros"

definition is_digit :: "nat \<Rightarrow> bool" where
  "is_digit c \<longleftrightarrow> digit_zero c \<noteq> None"

definition digit_val :: "nat \<Rightarrow> nat" where
  "digit_val c = (case digit_zero c of None \<Rightarrow> 0 | Some z \<Rightarrow> c - z)"

datatype py_error = IndexError | ValueError | UnboundLocalError | AttributeError | TypeError

text \<open>
  \<open>int(s)\<close> on a non-empty string of decimal digits. CPython refuses a string of more
  than 4300 digits with \<open>ValueError\<close> (the default of \<open>sys.set_int_max_str_digits\<close>).
\<close>

definition py_int :: "pystr \<Rightarrow> py_error + nat" where
  "py_int ds =
     (if length ds > 4300 then Inl ValueError
      else Inr (foldl (\<lambda>a c. 10 * a + digit_val c) 0 ds))"

definition strip :: "pystr \<Rightarrow> pystr" where
  "strip s = rev (dropWhile is_space (rev (dropWhile is_space s)))"

text \<open>\<open>s.find(sub)\<close>: the lowest index at which \<open>sub\<close> occurs in \<open>s\<close>, if any.\<close>

fun find_sub :: "'a list \<Rightarrow> 'a list \<Rightarrow> nat option" where
  "find_sub sub [] = (if sub = [] then Some 0 else None)"
| "find_sub sub (c # cs) =
     (if take (length sub) (c # cs) = sub then Some 0
      else map_option Suc (find_sub sub cs))"

text \<open>\<open>sub in s\<close>.\<close>

definition contains :: "'a list \<Rightarrow> 'a list \<Rightarrow> bool" where
  "contains sub s \<longleftrightarrow> find_sub sub s \<noteq> None"

text \<open>\<open>s.replace(old, new, 1)\<close>.\<close>

definition replace1 :: "'a list \<Rightarrow> 'a list \<Rightarrow> 'a list \<Rightarrow> 'a list" where
  "replace1 s old new =
     (case find_sub old s of
        None \<Rightarrow> s
      | Some i \<Rightarrow> take i s @ new @ drop (i + length old) s)"

text \<open>\<open>s.split(sep)\<close> for a separator of one character: never the empty list.\<close>

fun split_all :: "'a \<Rightarrow> 'a list \<Rightarrow> 'a list list" where
  "split_all sep [] = [[]]"
| "split_all sep (c # cs) =
     (if c = sep then [] # split_all sep cs
      else (c # hd (split_all sep cs)) # tl (split_all sep cs))"

text \<open>\<open>s.split(sep, 1)\<close> for a separator of one character: one or two parts.\<close>

definition split1 :: "'a \<Rightarrow> 'a list \<Rightarrow> 'a list list" where
  "split1 sep s =
     (if sep \<in> set s then [takeWhile (\<lambda>c. c \<noteq> sep) s, tl (dropWhile (\<lambda>c. c \<noteq> sep) s)]
      else [s])"

text \<open>\<open>sep.join(parts)\<close>.\<close>

fun join :: "'a list \<Rightarrow> 'a list list \<Rightarrow> 'a list" where
  "join sep [] = []"
| "join sep [p] = p"
| "join sep (p # q # ps) = p @ sep @ join sep (q # ps)"

text \<open>\<open>xs[i]\<close> for an index \<open>i \<ge> 0\<close>: \<open>IndexError\<close> out of range.\<close>

definition get :: "'a list \<Rightarrow> nat \<Rightarrow> py_error + 'a" where
  "get xs i = (if i < length xs then Inr (xs ! i) else Inl IndexError)"

section \<open>Page geometry\<close>

text \<open>
  Coordinates are the floats PyMuPDF delivers; they are taken as real numbers, so the two
  subtractions and the midpoint of the source are exact. The thresholds 0, 2 and 4 are
  exact in both readings.

  \<open>fitz.Rect(p1, p2)\<close> keeps the corners as given (it does not order them), and
  PyMuPDF defines \<open>Rect.width\<close> as \<open>max(0, x1 - x0)\<close> and \<open>Rect.height\<close> as
  \<open>max(0, y1 - y0)\<close>.
\<close>

record point =
  px :: real
  py :: real

record rect =
  x0 :: real
  y0 :: real
  x1 :: real
  y1 :: real

definition Rect :: "point \<Rightarrow> point \<Rightarrow> rect" where
  "Rect p1 p2 = \<lparr>x0 = px p1, y0 = py p1, x1 = px p2, y1 = py p2\<rparr>"

definition width :: "rect \<Rightarrow> real" where
  "width r = max 0 (x1 r - x0 r)"

definition height :: "rect \<Rightarrow> real" where
  "height r = max 0 (y1 r - y0 r)"

text \<open>
  An item of a drawing path: \<open>("l", p1, p2)\<close>, \<open>("re", rect, ...)\<close>, or any other
  command (a curve \<open>"c"\<close>, a quad \<open>"qu"\<close>).
\<close>

datatype item = Line point point | Re rect | OtherItem

record span =
  span_text :: pystr
  span_flags :: int
  span_bbox :: rect

subsection \<open>\<open>get_underlines\<close>\<close>

text \<open>The body of the inner loop: what one item appends to \<open>underlines\<close>.\<close>

fun underline_item :: "item \<Rightarrow> rect list \<Rightarrow> rect list" where
  "underline_item (Line p1 p2) underlines =
     (if \<bar>py p1 - py p2\<bar> \<le> 2 then underlines @ [Rect p1 p2] else underlines)"
| "underline_item (Re r) underlines =
     (if height r \<le> 2 \<and> width r > 0 then underlines @ [r] else underlines)"
| "underline_item OtherItem underlines = underlines"

fun underline_items :: "item list \<Rightarrow> rect list \<Rightarrow> rect list" where
  "underline_items [] underlines = underlines"
| "underline_items (it # its) underlines = underline_items its (underline_item it underlines)"

fun underline_paths :: "item list list \<Rightarrow> rect list \<Rightarrow> rect list" where
  "underline_paths [] underlines = underlines"
| "underline_paths (path # paths) underlines =
     underline_paths paths (underline_items path underlines)"

text \<open>The argument is \<open>page.get_drawings()\<close>: the item list of each path.\<close>

definition get_underlines :: "item list list \<Rightarrow> rect list" where
  "get_underlines drawings = underline_paths drawings []"

subsection \<open>\<open>is_span_marked\<close>\<close>

fun underline_near :: "real \<Rightarrow> real \<Rightarrow> rect list \<Rightarrow> bool" where
  "underline_near span_mid_x span_baseline_y [] = False"
| "underline_near span_mid_x span_baseline_y (r # rs) =
     (if (x0 r \<le> span_mid_x \<and> span_mid_x \<le> x1 r) \<and>
         (0 \<le> y0 r - span_baseline_y \<and> y0 r - span_baseline_y < 4)
      then True
      else underline_near span_mid_x span_baseline_y rs)"

definition is_span_marked :: "span \<Rightarrow> rect list \<Rightarrow> bool" where
  "is_span_marked sp underlines =
     (let span_rect = span_bbox sp in
      if and (span_flags sp) 16 \<noteq> 0 then True
      else
        let span_mid_x = (x0 span_rect + x1 span_rect) / 2;
            span_baseline_y = y1 span_rect
        in underline_near span_mid_x span_baseline_y underlines)"

text \<open>What the detector keeps of one item, stated on its own.\<close>

definition underline_of :: "item \<Rightarrow> rect option" where
  "underline_of it =
     (case it of
        Line p1 p2 \<Rightarrow> if \<bar>py p1 - py p2\<bar> \<le> 2 then Some (Rect p1 p2) else None
      | Re r \<Rightarrow> if height r \<le> 2 \<and> 0 < width r then Some r else None
      | OtherItem \<Rightarrow> None)"

section \<open>Patterns\<close>

text \<open>
  Each regular expression of the source is translated by hand. A greedy \<open>\d+\<close> takes the
  longest run of digits; in every pattern below the next token is not a digit, so
  backtracking into the run cannot help and the run is the only candidate.
\<close>

text \<open>\<open>re.compile(r'^\d+B').match(s)\<close> with B = U+756A: a label "number N".\<close>

definition question_start_re :: "pystr \<Rightarrow> bool" where
  "question_start_re s \<longleftrightarrow>
     takeWhile is_digit s \<noteq> [] \<and> take 1 (dropWhile is_digit s) = [30058]"

text \<open>\<open>re.match(r'XY(\d+)', s)\<close> with X = U+554F, Y = U+984C ("mondai"): group 1, if it matches.\<close>

definition mondai_match :: "pystr \<Rightarrow> pystr option" where
  "mondai_match s =
     (if take 2 s = [21839, 38988] \<and> takeWhile is_digit (drop 2 s) \<noteq> []
      then Some (takeWhile is_digit (drop 2 s)) else None)"

text \<open>\<open>re.match(r'^(\d+)\.', s)\<close>: group 1, if it matches.\<close>

definition numbered_match :: "pystr \<Rightarrow> pystr option" where
  "numbered_match s =
     (if takeWhile is_digit s \<noteq> [] \<and> take 1 (dropWhile is_digit s) = [46]
      then Some (takeWhile is_digit s) else None)"

text \<open>
  \<open>re.sub(r'^\d+\.\s*', '', s)\<close>: without the multi-line flag \<open>^\<close> matches at index 0
  only, so at most one match is removed: the digits, the period and all whitespace after
  it.
\<close>

definition sub_ordinal :: "pystr \<Rightarrow> pystr" where
  "sub_ordinal s =
     (if takeWhile is_digit s \<noteq> [] \<and> take 1 (dropWhile is_digit s) = [46]
      then dropWhile is_space (drop 1 (dropWhile is_digit s)) else s)"

text \<open>The greatest index at which \<open>c\<close> occurs.\<close>

fun last_index :: "'a \<Rightarrow> 'a list \<Rightarrow> nat option" where
  "last_index c [] = None"
| "last_index c (x # xs) =
     (case last_index c xs of
        Some i \<Rightarrow> Some (Suc i)
      | None \<Rightarrow> if x = c then Some 0 else None)"

text \<open>
  \<open>(\d+)\.(.*)L(.*)R\<close> with L = U+300C and R = U+300D, tried at index 0 of \<open>s\<close>. The dot
  matches every character but the newline, so both \<open>.*\<close> stay inside the text \<open>t\<close> up to
  the first newline after the period. Greedy matching with backtracking ends group 3 at
  the last R of \<open>t\<close> and group 2 at the last L before that R. The result is the three
  groups.
\<close>

definition kanji_match_here :: "pystr \<Rightarrow> (pystr \<times> pystr \<times> pystr) option" where
  "kanji_match_here s =
     (if takeWhile is_digit s \<noteq> [] \<and> take 1 (dropWhile is_digit s) = [46] then
        let t = takeWhile (\<lambda>c. c \<noteq> 10) (drop 1 (dropWhile is_digit s)) in
        (case last_index 12301 t of
           None \<Rightarrow> None
         | Some b \<Rightarrow>
            (case last_index 12300 (take b t) of
               None \<Rightarrow> None
             | Some a \<Rightarrow> Some (takeWhile is_digit s, take a t, drop (Suc a) (take b t))))
      else None)"

text \<open>\<open>re.search\<close> of that pattern: the match at the lowest index that has one.\<close>

fun kanji_search :: "pystr \<Rightarrow> (pystr \<times> pystr \<times> pystr) option" where
  "kanji_search [] = None"
| "kanji_search (c # cs) =
     (case kanji_match_here (c # cs) of
        Some g \<Rightarrow> Some g
      | None \<Rightarrow> kanji_search cs)"

section \<open>Question records\<close>

text \<open>
  A question is a dict in the source; the record has the seven columns of the output. The
  listening extractor sets no \<open>choices\<close> and no \<open>answer\<close> key and the CSV writer renders a
  missing key as the empty string, which is the value the record holds for them.
\<close>

record qrec =
  qtype :: pystr
  number :: pystr
  dialogue :: pystr
  question :: pystr
  choices :: pystr
  answer :: pystr
  source_page :: nat

definition placeholder :: pystr where
  "placeholder = ascii '' (______) ''"

section \<open>\<open>extract_listening_questions\<close> (JLPT-pdf-csv.py)\<close>

text \<open>
  The state of the loop: \<open>current_question_data\<close> (the number and the source page of the
  open question, \<open>None\<close> before the first), \<open>full_dialogue\<close> and \<open>questions\<close>.
\<close>

record listening_state =
  current_question_data :: "(pystr \<times> nat) option"
  full_dialogue :: pystr
  l_questions :: "qrec list"

text \<open>The flush, written twice in the source: in the loop and after it.\<close>

definition flush_listening :: "pystr \<times> nat \<Rightarrow> pystr \<Rightarrow> qrec" where
  "flush_listening cur fd =
     (let dialogue_parts = split_all 10 (strip fd) in
      if length dialogue_parts > 1 then
        \<lparr>qtype = ascii ''Listening'', number = fst cur,
         dialogue = join [10] (butlast dialogue_parts), question = last dialogue_parts,
         choices = [], answer = [], source_page = snd cur\<rparr>
      else
        \<lparr>qtype = ascii ''Listening'', number = fst cur,
         dialogue = [], question = strip fd,
         choices = [], answer = [], source_page = snd cur\<rparr>)"

definition flush_open :: "listening_state \<Rightarrow> qrec list" where
  "flush_open st =
     (case current_question_data st of
        None \<Rightarrow> l_questions st
      | Some cur \<Rightarrow> l_questions st @ [flush_listening cur (full_dialogue st)])"

text \<open>One block \<open>b\<close> of page \<open>page_num\<close> (counted from 0); the argument is \<open>b[4]\<close>.\<close>

definition listening_block ::
  "pystr list \<Rightarrow> nat \<Rightarrow> pystr \<Rightarrow> listening_state \<Rightarrow> listening_state" where
  "listening_block watermark_texts page_num b st =
     (let block_text = strip b in
      if list_ex (\<lambda>wt. contains wt block_text) watermark_texts then st
      else if question_start_re block_text then
        \<lparr>current_question_data = Some (hd (split_all 10 block_text), page_num + 1),
         full_dialogue = last (split1 10 block_text) @ [10],
         l_questions = flush_open st\<rparr>
      else if current_question_data st \<noteq> None then
        st\<lparr>full_dialogue := full_dialogue st @ block_text @ [10]\<rparr>
      else st)"

fun listening_blocks ::
  "pystr list \<Rightarrow> nat \<Rightarrow> pystr list \<Rightarrow> listening_state \<Rightarrow> listening_state" where
  "listening_blocks wts page_num [] st = st"
| "listening_blocks wts page_num (b # bs) st =
     listening_blocks wts page_num bs (listening_block wts page_num b st)"

fun listening_pages ::
  "pystr list \<Rightarrow> nat \<Rightarrow> pystr list list \<Rightarrow> listening_state \<Rightarrow> listening_state" where
  "listening_pages wts page_num [] st = st"
| "listening_pages wts page_num (p # ps) st =
     listening_pages wts (page_num + 1) ps (listening_blocks wts page_num p st)"

text \<open>The document is the list of its pages, a page the list of its block texts.\<close>

definition extract_listening_questions :: "pystr list \<Rightarrow> pystr list list \<Rightarrow> qrec list" where
  "extract_listening_questions watermark_texts doc =
     flush_open
       (listening_pages watermark_texts 0 doc
          \<lparr>current_question_data = None, full_dialogue = [], l_questions = []\<rparr>)"

section \<open>\<open>extract_grammar_vocab_questions\<close> (JLPT-pdf-csv.py)\<close>

text \<open>The open grammar question: its number, the spans of its lines, its page.\<close>

record acc =
  acc_number :: pystr
  acc_spans :: "span list list"
  acc_page :: nat

text \<open>
  The loop over the spans of one line: \<open>full_sentence\<close> takes every span,
  \<open>answer_text\<close> the marked ones.
\<close>

fun spans_loop :: "rect list \<Rightarrow> span list \<Rightarrow> pystr \<times> pystr \<Rightarrow> pystr \<times> pystr" where
  "spans_loop underlines [] fa = fa"
| "spans_loop underlines (sp # sps) fa =
     spans_loop underlines sps
       (fst fa @ span_text sp,
        if is_span_marked sp underlines then snd fa @ span_text sp else snd fa)"

fun lines_loop :: "rect list \<Rightarrow> span list list \<Rightarrow> pystr \<times> pystr \<Rightarrow> pystr \<times> pystr" where
  "lines_loop underlines [] fa = fa"
| "lines_loop underlines (line_spans # ls) fa =
     lines_loop underlines ls
       (fst (spans_loop underlines line_spans fa) @ [10],
        snd (spans_loop underlines line_spans fa))"

text \<open>The dict \<open>q\<close> that \<open>process_and_save_grammar_question\<close> builds from a question.\<close>

definition grammar_question :: "acc \<Rightarrow> rect list \<Rightarrow> qrec" where
  "grammar_question d page_underlines =
     (let fa = lines_loop page_underlines (acc_spans d) ([], []);
          full_sentence = strip (fst fa);
          answer_text = strip (snd fa);
          question_text =
            (if answer_text \<noteq> [] then replace1 full_sentence answer_text placeholder
             else full_sentence)
      in \<lparr>qtype = ascii ''Grammar/Reading'', number = acc_number d, dialogue = [],
          question = strip (sub_ordinal question_text), choices = [],
          answer = answer_text, source_page = acc_page d\<rparr>)"

text \<open>The third argument and the result are the list \<open>questions\<close> of the enclosing function.\<close>

definition process_and_save_grammar_question ::
  "acc option \<Rightarrow> rect list \<Rightarrow> qrec list \<Rightarrow> qrec list" where
  "process_and_save_grammar_question data page_underlines qs =
     (case data of
        None \<Rightarrow> qs
      | Some d \<Rightarrow> qs @ [grammar_question d page_underlines])"

datatype sect = Vocab | Grammar

record scan_state =
  section_name :: sect
  current_mondai :: nat
  current_grammar_q_data :: "acc option"
  questions :: "qrec list"

text \<open>
  The vocabulary branch for one line: the record it appends to \<open>questions\<close>, if any.
  \<open>Inl\<close> is the exception that leaves the scan.
\<close>

definition vocab_line ::
  "nat \<Rightarrow> rect list \<Rightarrow> nat \<Rightarrow> span list \<Rightarrow> pystr \<Rightarrow> py_error + qrec option" where
  "vocab_line mondai underlines page_num spans line_text =
     (if mondai = 3 \<and> numbered_match line_text \<noteq> None then
        (let fa = spans_loop underlines spans ([], []);
             full_sentence = fst fa;
             answer_text = strip (snd fa);
             question_text =
               (if answer_text \<noteq> [] then replace1 full_sentence answer_text placeholder
                else full_sentence)
         in Inr (Some
              \<lparr>qtype = ascii ''Fill-in-the-Blank'', number = hd (split_all 46 line_text),
               dialogue = [], question = strip (sub_ordinal question_text), choices = [],
               answer = answer_text, source_page = page_num + 1\<rparr>))
      else if (mondai = 1 \<or> mondai = 2) \<and> 12300 \<in> set line_text then
        (case kanji_search line_text of
           Some (g1, g2, g3) \<Rightarrow>
             Inr (Some
               \<lparr>qtype = ascii ''Vocabulary (Kanji/Kana)'', number = g1, dialogue = [],
                question = strip g2, choices = [], answer = strip g3,
                source_page = page_num + 1\<rparr>)
         | None \<Rightarrow> Inr None)
      else if mondai = 4 \<and> 61 \<in> set line_text then
        (let parts = split1 61 line_text in
         if length parts = 2 then
           (case get (split1 46 (parts ! 0)) 1 of
              Inl e \<Rightarrow> Inl e
            | Inr prompt \<Rightarrow>
               Inr (Some
                 \<lparr>qtype = ascii ''Synonym'', number = strip (hd (split_all 46 (parts ! 0))),
                  dialogue = [], question = strip prompt, choices = [],
                  answer = strip (parts ! 1), source_page = page_num + 1\<rparr>))
         else Inr None)
      else if mondai = 5 \<and> 8658 \<in> set line_text then
        (let parts = split1 8658 line_text in
         if length parts = 2 then
           Inr (Some
             \<lparr>qtype = ascii ''Sentence Construction'', number = strip (parts ! 0),
              dialogue = [], question = strip (parts ! 0), choices = [],
              answer = strip (parts ! 1), source_page = page_num + 1\<rparr>)
         else Inr None)
      else Inr None)"

text \<open>
  One line of a text block: \<open>line\<close> is \<open>line['spans']\<close>. The section markers are
  U+3082 U+3058 U+30FB U+3054 U+3044 (vocabulary) and
  U+3076 U+3093 U+307D U+3046 U+30FB U+3069 U+3063 U+304B U+3044 (grammar and reading).
\<close>

definition process_line ::
  "pystr list \<Rightarrow> rect list \<Rightarrow> nat \<Rightarrow> span list \<Rightarrow> scan_state \<Rightarrow> py_error + scan_state" where
  "process_line watermark_texts underlines page_num line st =
     (let line_text = strip (concat (map span_text line)) in
      if list_ex (\<lambda>wt. contains wt line_text) watermark_texts then Inr st
      else if contains [12418, 12376, 12539, 12372, 12356] line_text then
        Inr (st\<lparr>section_name := Vocab,
                questions :=
                  process_and_save_grammar_question (current_grammar_q_data st) underlines
                    (questions st),
                current_grammar_q_data := None\<rparr>)
      else if contains [12406, 12435, 12413, 12358, 12539, 12393, 12387, 12363, 12356] line_text
      then Inr (st\<lparr>section_name := Grammar\<rparr>)
      else
        (case mondai_match line_text of
           Some ds \<Rightarrow>
             (case py_int ds of
                Inl e \<Rightarrow> Inl e
              | Inr n \<Rightarrow>
                 Inr (st\<lparr>current_mondai := n,
                         questions :=
                           process_and_save_grammar_question (current_grammar_q_data st)
                             underlines (questions st),
                         current_grammar_q_data := None\<rparr>))
         | None \<Rightarrow>
             if current_mondai st = 0 \<or> line_text = [] then Inr st
             else if section_name st = Grammar then
               (case numbered_match line_text of
                  Some ds \<Rightarrow>
                    Inr (st\<lparr>questions :=
                              process_and_save_grammar_question (current_grammar_q_data st)
                                underlines (questions st),
                            current_grammar_q_data :=
                              Some \<lparr>acc_number = ds, acc_spans = [line],
                                    acc_page = page_num + 1\<rparr>\<rparr>)
                | None \<Rightarrow>
                    (case current_grammar_q_data st of
                       Some d \<Rightarrow>
                         Inr (st\<lparr>current_grammar_q_data :=
                                   Some (d\<lparr>acc_spans := acc_spans d @ [line]\<rparr>)\<rparr>)
                     | None \<Rightarrow> Inr st))
             else
               (case vocab_line (current_mondai st) underlines page_num line line_text of
                  Inl e \<Rightarrow> Inl e
                | Inr None \<Rightarrow> Inr st
                | Inr (Some q) \<Rightarrow> Inr (st\<lparr>questions := questions st @ [q]\<rparr>))))"

text \<open>
  A block of \<open>page.get_text("dict")\<close>: a text block with its lines, or a block without
  the key \<open>lines\<close> (an image), which the scan skips.
\<close>

datatype block = TextBlock "span list list" | NoLines

record page =
  drawings :: "item list list"
  blocks :: "block list"

text \<open>
  The loops return the state they reached and the exception that ended them, if any:
  \<open>questions\<close> is a list the source appends to in place, so what was appended before an
  exception stays.
\<close>

fun scan_lines ::
  "pystr list \<Rightarrow> rect list \<Rightarrow> nat \<Rightarrow> span list list \<Rightarrow> scan_state \<Rightarrow>
     py_error option \<times> scan_state" where
  "scan_lines wts underlines page_num [] st = (None, st)"
| "scan_lines wts underlines page_num (line # ls) st =
     (case process_line wts underlines page_num line st of
        Inl e \<Rightarrow> (Some e, st)
      | Inr st' \<Rightarrow> scan_lines wts underlines page_num ls st')"

fun scan_blocks ::
  "pystr list \<Rightarrow> rect list \<Rightarrow> nat \<Rightarrow> block list \<Rightarrow> scan_state \<Rightarrow>
     py_error option \<times> scan_state" where
  "scan_blocks wts underlines page_num [] st = (None, st)"
| "scan_blocks wts underlines page_num (NoLines # bs) st =
     scan_blocks wts underlines page_num bs st"
| "scan_blocks wts underlines page_num (TextBlock ls # bs) st =
     (case scan_lines wts underlines page_num ls st of
        (Some e, st') \<Rightarrow> (Some e, st')
      | (None, st') \<Rightarrow> scan_blocks wts underlines page_num bs st')"

fun scan_pages ::
  "pystr list \<Rightarrow> nat \<Rightarrow> page list \<Rightarrow> scan_state \<Rightarrow> py_error option \<times> scan_state" where
  "scan_pages wts page_num [] st = (None, st)"
| "scan_pages wts page_num (p # ps) st =
     (case scan_blocks wts (get_underlines (drawings p)) page_num (blocks p) st of
        (Some e, st') \<Rightarrow> (Some e, st')
      | (None, st') \<Rightarrow> scan_pages wts (page_num + 1) ps st')"

definition initial_state :: scan_state where
  "initial_state =
     \<lparr>section_name = Vocab, current_mondai = 0, current_grammar_q_data = None,
      questions = []\<rparr>"

text \<open>
  The body of the \<open>try\<close>: the scan, then the flush of the open question with the
  underlines of the last page. With no page at all the name \<open>underlines\<close> is unbound at
  that call. The result is the exception caught, if any, and \<open>questions\<close>.
\<close>

definition scan_document :: "pystr list \<Rightarrow> page list \<Rightarrow> py_error option \<times> qrec list" where
  "scan_document watermark_texts doc =
     (case scan_pages watermark_texts 0 doc initial_state of
        (Some e, st) \<Rightarrow> (Some e, questions st)
      | (None, st) \<Rightarrow>
          if doc = [] then (Some UnboundLocalError, questions st)
          else (None,
                process_and_save_grammar_question (current_grammar_q_data st)
                  (get_underlines (drawings (last doc))) (questions st)))"

definition extract_grammar_vocab_questions :: "pystr list \<Rightarrow> page list \<Rightarrow> qrec list" where
  "extract_grammar_vocab_questions watermark_texts doc =
     snd (scan_document watermark_texts doc)"

text \<open>
  The lines of a document in the order the three loops visit them, each with the
  underlines and the number of its page, and the scan over such a list.
\<close>

fun block_lines :: "block \<Rightarrow> span list list" where
  "block_lines (TextBlock ls) = ls"
| "block_lines NoLines = []"

fun doc_lines :: "nat \<Rightarrow> page list \<Rightarrow> (rect list \<times> nat \<times> span list) list" where
  "doc_lines page_num [] = []"
| "doc_lines page_num (p # ps) =
     map (\<lambda>line. (get_underlines (drawings p), page_num, line))
         (concat (map block_lines (blocks p)))
     @ doc_lines (page_num + 1) ps"

fun scan_flat ::
  "pystr list \<Rightarrow> (rect list \<times> nat \<times> span list) list \<Rightarrow> scan_state \<Rightarrow>
     py_error option \<times> scan_state" where
  "scan_flat wts [] st = (None, st)"
| "scan_flat wts ((underlines, page_num, line) # ls) st =
     (case process_line wts underlines page_num line st of
        Inl e \<Rightarrow> (Some e, st)
      | Inr st' \<Rightarrow> scan_flat wts ls st')"

section \<open>Stage 1 and stage 2 of JLPT-pdf-csv-grammar.py\<close>

text \<open>
  In this file the open question also carries its type, and
  \<open>process_and_save_question\<close> leaves the question text without a placeholder: the
  placeholder is put in by stage 2, from the manually corrected answers.
\<close>

record tacc = acc +
  acc_type :: pystr

definition stage1_question :: "tacc \<Rightarrow> rect list \<Rightarrow> qrec" where
  "stage1_question d page_underlines =
     (let fa = lines_loop page_underlines (acc_spans d) ([], []);
          full_sentence = strip (fst fa);
          answer_text = strip (snd fa);
          question_text = strip (sub_ordinal full_sentence)
      in \<lparr>qtype = acc_type d, number = acc_number d, dialogue = [],
          question = question_text, choices = [],
          answer = answer_text, source_page = acc_page d\<rparr>)"

definition process_and_save_question ::
  "tacc option \<Rightarrow> rect list \<Rightarrow> qrec list \<Rightarrow> qrec list" where
  "process_and_save_question data page_underlines qs =
     (case data of
        None \<Rightarrow> qs
      | Some d \<Rightarrow> qs @ [stage1_question d page_underlines])"

text \<open>
  The body of the loop of \<open>refine_with_manual_answers\<close> on a row that has a string under
  every key it holds: \<open>row.get(key, '')\<close> and the update. Every row the pass has written
  is such a row.
\<close>

type_synonym row = "pystr \<rightharpoonup> pystr"

definition row_get :: "row \<Rightarrow> pystr \<Rightarrow> pystr" where
  "row_get r key = (case r key of None \<Rightarrow> [] | Some v \<Rightarrow> v)"

definition refine_row :: "row \<Rightarrow> row" where
  "refine_row r =
     (let question_v = row_get r (ascii ''question'');
          answer_v = strip (row_get r (ascii ''answer''))
      in if answer_v \<noteq> [] \<and> contains answer_v question_v
         then r(ascii ''question'' \<mapsto> replace1 question_v answer_v placeholder)
         else r)"

subsection \<open>\<open>refine_with_manual_answers\<close> on a file\<close>

text \<open>
  The input file is the list of rows \<open>csv.reader\<close> yields, each the list of its fields, a
  blank line being the empty list; the output is the list of rows given to \<open>csv.writer\<close>.

  A dict is a list of pairs in insertion order with one pair for each key;
  \<open>dict_set\<close> is \<open>d[k] = v\<close>.
\<close>

fun dict_set :: "'k \<Rightarrow> 'v \<Rightarrow> ('k \<times> 'v) list \<Rightarrow> ('k \<times> 'v) list" where
  "dict_set k v [] = [(k, v)]"
| "dict_set k v (p # ps) = (if fst p = k then (k, v) # ps else p # dict_set k v ps)"

text \<open>
  The dict \<open>csv.DictReader\<close> makes of a row: under each column name a field or, for a
  row shorter than the header, \<open>None\<close> (the \<open>restval\<close>); and, for a row longer than the
  header, the list of the extra fields under the key \<open>None\<close> (the \<open>restkey\<close>).
\<close>

record csv_row =
  cells :: "(pystr \<times> pystr option) list"
  restkey :: "pystr list option"

text \<open>\<open>DictReader.__next__\<close> on a row that is not blank.\<close>

definition dict_reader_row :: "pystr list \<Rightarrow> pystr list \<Rightarrow> csv_row" where
  "dict_reader_row fieldnames r =
     (let d = foldl (\<lambda>d kv. dict_set (fst kv) (Some (snd kv)) d) [] (zip fieldnames r);
          lf = length fieldnames;
          lr = length r
      in if lf < lr then \<lparr>cells = d, restkey = Some (drop lf r)\<rparr>
         else if lf > lr then
           \<lparr>cells = foldl (\<lambda>d key. dict_set key None d) d (drop lr fieldnames),
            restkey = None\<rparr>
         else \<lparr>cells = d, restkey = None\<rparr>)"

text \<open>
  The body of the loop up to the call of the writer. \<open>None.strip()\<close> raises
  \<open>AttributeError\<close>, and \<open>answer in None\<close> raises \<open>TypeError\<close>; the test
  \<open>answer and ...\<close> does not look at the question when the answer is empty.
\<close>

definition refine_body :: "csv_row \<Rightarrow> py_error + csv_row" where
  "refine_body rw =
     (let question_v =
            (case map_of (cells rw) (ascii ''question'') of None \<Rightarrow> Some [] | Some v \<Rightarrow> v)
      in case (case map_of (cells rw) (ascii ''answer'') of None \<Rightarrow> Some [] | Some v \<Rightarrow> v) of
           None \<Rightarrow> Inl AttributeError
         | Some a \<Rightarrow>
            (let answer_v = strip a in
             if answer_v \<noteq> [] then
               (case question_v of
                  None \<Rightarrow> Inl TypeError
                | Some q \<Rightarrow>
                   if contains answer_v q
                   then Inr (rw\<lparr>cells :=
                               dict_set (ascii ''question'')
                                 (Some (replace1 q answer_v placeholder)) (cells rw)\<rparr>)
                   else Inr rw)
             else Inr rw))"

text \<open>
  \<open>DictWriter.writerow\<close> with the default \<open>extrasaction='raise'\<close>: \<open>ValueError\<close> for a key
  that is not a column name, as the key \<open>None\<close> never is; otherwise the values in the order
  of the header, the empty string for a missing key and for \<open>None\<close>.
\<close>

definition writerow :: "pystr list \<Rightarrow> csv_row \<Rightarrow> py_error + pystr list" where
  "writerow fieldnames rw =
     (if restkey rw \<noteq> None \<or> list_ex (\<lambda>k. k \<notin> set fieldnames) (map fst (cells rw))
      then Inl ValueError
      else Inr (map (\<lambda>key. case map_of (cells rw) key of
                              None \<Rightarrow> []
                            | Some None \<Rightarrow> []
                            | Some (Some v) \<Rightarrow> v) fieldnames))"

text \<open>One pass of the loop for a row that is not blank: the row written, or the exception.\<close>

definition row_step :: "pystr list \<Rightarrow> pystr list \<Rightarrow> py_error + pystr list" where
  "row_step fieldnames r =
     (case refine_body (dict_reader_row fieldnames r) of
        Inl e \<Rightarrow> Inl e
      | Inr rw \<Rightarrow> writerow fieldnames rw)"

text \<open>
  The loop over the rows after the header; the reader skips blank rows. The last argument
  is what has been written so far, which stays in the output file when an exception ends
  the loop.
\<close>

fun refine_loop ::
  "pystr list \<Rightarrow> pystr list list \<Rightarrow> pystr list list \<Rightarrow> py_error option \<times> pystr list list" where
  "refine_loop fieldnames [] out = (None, out)"
| "refine_loop fieldnames (r # rs) out =
     (if r = [] then refine_loop fieldnames rs out
      else (case row_step fieldnames r of
              Inl e \<Rightarrow> (Some e, out)
            | Inr written \<Rightarrow> refine_loop fieldnames rs (out @ [written])))"

text \<open>
  The header is the first row of the file, and \<open>writeheader\<close> writes it as it is. For a
  file without rows \<open>fieldnames\<close> is \<open>None\<close> and \<open>writeheader\<close> raises \<open>TypeError\<close>. The
  result is the exception the handler caught, if any, and the rows of the output file.
\<close>

definition refine_with_manual_answers ::
  "pystr list list \<Rightarrow> py_error option \<times> pystr list list" where
  "refine_with_manual_answers rows_in =
     (case rows_in of
        [] \<Rightarrow> (Some TypeError, [])
      | fieldnames # rs \<Rightarrow> refine_loop fieldnames rs [fieldnames])"

text \<open>
  The fields of a row after the refinement, in the order of the header, stated with
  \<open>refine_row\<close> on the row read as a dict of strings.
\<close>

definition refined_fields :: "pystr list \<Rightarrow> pystr list \<Rightarrow> pystr list" where
  "refined_fields fieldnames r = map (row_get (refine_row (map_of (zip fieldnames r)))) fieldnames"

section \<open>Example inputs\<close>

text \<open>
  A span that is not bold and a bold one, and a page without drawings whose single block
  has one line of one plain span for each of the given texts.
\<close>

definition plain :: "pystr \<Rightarrow> span" where
  "plain t = \<lparr>span_text = t, span_flags = 0, span_bbox = \<lparr>x0 = 0, y0 = 0, x1 = 10, y1 = 10\<rparr>\<rparr>"

definition bold :: "pystr \<Rightarrow> span" where
  "bold t = \<lparr>span_text = t, span_flags = 16, span_bbox = \<lparr>x0 = 0, y0 = 0, x1 = 10, y1 = 10\<rparr>\<rparr>"

definition text_page :: "pystr list \<Rightarrow> page" where
  "text_page ts = \<lparr>drawings = [], blocks = [TextBlock (map (\<lambda>t. [plain t]) ts)]\<rparr>"

section \<open>The texts of a question, in the words of the specification\<close>

text \<open>
  The full sentence is the newline-joined text of the lines, the answer text the
  concatenation of the marked spans; both are trimmed, as the code trims them.
\<close>

definition full_sentence_of :: "span list list \<Rightarrow> pystr" where
  "full_sentence_of ls = strip (join [10] (map (\<lambda>l. concat (map span_text l)) ls))"

definition answer_text_of :: "span list list \<Rightarrow> rect list \<Rightarrow> pystr" where
  "answer_text_of ls uls =
     strip (concat (map span_text (filter (\<lambda>sp. is_span_marked sp uls) (concat ls))))"

text \<open>
  The example line: "1.", four words separated by ideographic spaces (U+3000) and a full
  stop, in three spans, the third word bold.
\<close>

definition example_line :: "span list" where
  "example_line =
     [plain [49, 46, 12431, 12383, 12375, 12288, 12399, 12288],
      bold [12364, 12367, 12379, 12356],
      plain [12288, 12391, 12377, 12290]]"

section \<open>Invariants of the two scans\<close>

text \<open>
  What holds of every listening record, and of the listening state between two blocks:
  the open question has a number and its accumulated text has a character that is not
  whitespace.
\<close>

definition listening_record_ok :: "qrec \<Rightarrow> bool" where
  "listening_record_ok q \<longleftrightarrow> qtype q = ascii ''Listening'' \<and> number q \<noteq> [] \<and> question q \<noteq> []"

definition listening_state_ok :: "listening_state \<Rightarrow> bool" where
  "listening_state_ok st \<longleftrightarrow>
     list_all listening_record_ok (l_questions st) \<and>
     (case current_question_data st of
        None \<Rightarrow> True
      | Some cur \<Rightarrow> fst cur \<noteq> [] \<and> list_ex (\<lambda>c. \<not> is_space c) (full_dialogue st))"

text \<open>What holds of every record of the grammar and vocabulary scan.\<close>

definition vocab_record_ok :: "qrec \<Rightarrow> bool" where
  "vocab_record_ok q \<longleftrightarrow>
     qtype q \<in> set [ascii ''Grammar/Reading'', ascii ''Fill-in-the-Blank'',
                    ascii ''Vocabulary (Kanji/Kana)'', ascii ''Synonym'',
                    ascii ''Sentence Construction''] \<and>
     (qtype q \<in> set [ascii ''Grammar/Reading'', ascii ''Fill-in-the-Blank'',
                     ascii ''Vocabulary (Kanji/Kana)''] \<longrightarrow> number q \<noteq> [])"

section \<open>Properties of the geometry\<close>

lemma underline_item_of:
  "underline_item it acc = acc @ (case underline_of it of None \<Rightarrow> [] | Some r \<Rightarrow> [r])"
  by (cases it) (simp_all add: underline_of_def)

lemma underline_items_of:
  "underline_items its acc = acc @ List.map_filter underline_of its"
proof (induction its arbitrary: acc)
  case Nil
  show ?case by simp
next
  case (Cons it its)
  show ?case
    by (simp add: Cons.IH underline_item_of split: option.split)
qed

lemma underline_paths_of:
  "underline_paths paths acc = acc @ concat (map (List.map_filter underline_of) paths)"
  by (induction paths arbitrary: acc) (simp_all add: underline_items_of)

lemma set_map_filter_iff:
  "r \<in> set (List.map_filter f xs) \<longleftrightarrow> (\<exists>x \<in> set xs. f x = Some r)"
  by (induction xs) (auto split: option.splits)

lemma underline_near_iff:
  "underline_near m b rs \<longleftrightarrow>
     (\<exists>r \<in> set rs. x0 r \<le> m \<and> m \<le> x1 r \<and> 0 \<le> y0 r - b \<and> y0 r - b < 4)"
  by (induction rs) auto

section \<open>The underline detector and the marking classifier\<close>

text \<open>
  C8. For every drawing list of a page, \<open>get_underlines\<close> returns exactly the rectangles
  of the line items whose endpoints differ in y by at most 2 and the rectangle items of
  height at most 2 and strictly positive width, in drawing order; an item that fails its
  check, or is of another kind, contributes nothing; no drawings give no underlines.
\<close>

theorem get_underlines_exact:
  "get_underlines ds = concat (map (List.map_filter underline_of) ds) \<and>
   (r \<in> set (get_underlines ds) \<longleftrightarrow>
      (\<exists>path \<in> set ds. \<exists>it \<in> set path.
         (\<exists>p1 p2. it = Line p1 p2 \<and> \<bar>py p1 - py p2\<bar> \<le> 2 \<and> r = Rect p1 p2) \<or>
         (it = Re r \<and> height r \<le> 2 \<and> 0 < width r))) \<and>
   get_underlines [] = []"
proof -
  have eq: "get_underlines ds = concat (map (List.map_filter underline_of) ds)"
    by (simp add: get_underlines_def underline_paths_of)
  have of_iff: "underline_of it = Some r \<longleftrightarrow>
      (\<exists>p1 p2. it = Line p1 p2 \<and> \<bar>py p1 - py p2\<bar> \<le> 2 \<and> r = Rect p1 p2) \<or>
      (it = Re r \<and> height r \<le> 2 \<and> 0 < width r)" for it
    by (cases it) (auto simp: underline_of_def)
  have "r \<in> set (get_underlines ds) \<longleftrightarrow>
      (\<exists>path \<in> set ds. \<exists>it \<in> set path. underline_of it = Some r)"
    by (auto simp: eq set_map_filter_iff)
  then show ?thesis
    using eq of_iff by (simp add: get_underlines_def)
qed

theorem get_underlines_exact_witness:
  "get_underlines
     [[Line \<lparr>px = 0, py = 10\<rparr> \<lparr>px = 5, py = 11\<rparr>, Line \<lparr>px = 0, py = 0\<rparr> \<lparr>px = 5, py = 3\<rparr>],
      [Re \<lparr>x0 = 0, y0 = 0, x1 = 10, y1 = 1\<rparr>, Re \<lparr>x0 = 0, y0 = 0, x1 = 10, y1 = 5\<rparr>,
       Re \<lparr>x0 = 3, y0 = 0, x1 = 3, y1 = 1\<rparr>, OtherItem]]
   = [\<lparr>x0 = 0, y0 = 10, x1 = 5, y1 = 11\<rparr>, \<lparr>x0 = 0, y0 = 0, x1 = 10, y1 = 1\<rparr>]"
  using get_underlines_exact
    [of "[[Line \<lparr>px = 0, py = 10\<rparr> \<lparr>px = 5, py = 11\<rparr>, Line \<lparr>px = 0, py = 0\<rparr> \<lparr>px = 5, py = 3\<rparr>],
          [Re \<lparr>x0 = 0, y0 = 0, x1 = 10, y1 = 1\<rparr>, Re \<lparr>x0 = 0, y0 = 0, x1 = 10, y1 = 5\<rparr>,
           Re \<lparr>x0 = 3, y0 = 0, x1 = 3, y1 = 1\<rparr>, OtherItem]]"]
  by (simp add: underline_of_def Rect_def height_def width_def)

text \<open>
  C6. For a span that is not bold, \<open>is_span_marked\<close> is true if and only if some underline
  has the span's horizontal midpoint within its horizontal extent and its top edge at a
  distance d below the span's bottom edge with \<open>0 \<le> d < 4\<close>. For a span with bottom edge 100
  and midpoint 50: an underline over [40, 60] with top 102 marks it, one with top 105 does
  not, and one over [61, 80] does not, whatever its top.
\<close>

theorem is_span_marked_geometric:
  assumes "and (span_flags sp) 16 = 0"
  shows "(is_span_marked sp uls \<longleftrightarrow>
           (\<exists>r \<in> set uls.
              x0 r \<le> (x0 (span_bbox sp) + x1 (span_bbox sp)) / 2 \<and>
              (x0 (span_bbox sp) + x1 (span_bbox sp)) / 2 \<le> x1 r \<and>
              0 \<le> y0 r - y1 (span_bbox sp) \<and> y0 r - y1 (span_bbox sp) < 4)) \<and>
         (y1 (span_bbox sp) = 100 \<and> (x0 (span_bbox sp) + x1 (span_bbox sp)) / 2 = 50 \<longrightarrow>
            is_span_marked sp [\<lparr>x0 = 40, y0 = 102, x1 = 60, y1 = b\<rparr>] \<and>
            \<not> is_span_marked sp [\<lparr>x0 = 40, y0 = 105, x1 = 60, y1 = b\<rparr>] \<and>
            \<not> is_span_marked sp [\<lparr>x0 = 61, y0 = t, x1 = 80, y1 = b\<rparr>])"
  using assms by (simp add: is_span_marked_def Let_def underline_near_iff)

theorem is_span_marked_geometric_witness:
  "is_span_marked \<lparr>span_text = [], span_flags = 4, span_bbox = \<lparr>x0 = 30, y0 = 88, x1 = 70, y1 = 100\<rparr>\<rparr>
     [\<lparr>x0 = 40, y0 = 102, x1 = 60, y1 = 103\<rparr>] \<and>
   \<not> is_span_marked \<lparr>span_text = [], span_flags = 4, span_bbox = \<lparr>x0 = 30, y0 = 88, x1 = 70, y1 = 100\<rparr>\<rparr>
     [\<lparr>x0 = 40, y0 = 105, x1 = 60, y1 = 103\<rparr>] \<and>
   \<not> is_span_marked \<lparr>span_text = [], span_flags = 4, span_bbox = \<lparr>x0 = 30, y0 = 88, x1 = 70, y1 = 100\<rparr>\<rparr>
     [\<lparr>x0 = 61, y0 = 102, x1 = 80, y1 = 103\<rparr>]"
  using is_span_marked_geometric
    [of "\<lparr>span_text = [], span_flags = 4, span_bbox = \<lparr>x0 = 30, y0 = 88, x1 = 70, y1 = 100\<rparr>\<rparr>"
        "[]" 103 102]
  by simp

text \<open>
  C7. A span whose flags have the bold bit (value 16) set is marked, whatever the
  underlines are.
\<close>

theorem is_span_marked_bold:
  assumes "and (span_flags sp) 16 \<noteq> 0"
  shows "is_span_marked sp uls"
  using assms by (simp add: is_span_marked_def)

theorem is_span_marked_bold_witness:
  "is_span_marked \<lparr>span_text = [], span_flags = 20, span_bbox = \<lparr>x0 = 30, y0 = 88, x1 = 70, y1 = 100\<rparr>\<rparr> [] \<and>
   is_span_marked \<lparr>span_text = [], span_flags = 20, span_bbox = \<lparr>x0 = 30, y0 = 88, x1 = 70, y1 = 100\<rparr>\<rparr>
     [\<lparr>x0 = 500, y0 = 900, x1 = 600, y1 = 901\<rparr>]"
  using is_span_marked_bold
    [of "\<lparr>span_text = [], span_flags = 20, span_bbox = \<lparr>x0 = 30, y0 = 88, x1 = 70, y1 = 100\<rparr>\<rparr>" "[]"]
    is_span_marked_bold
    [of "\<lparr>span_text = [], span_flags = 20, span_bbox = \<lparr>x0 = 30, y0 = 88, x1 = 70, y1 = 100\<rparr>\<rparr>"
        "[\<lparr>x0 = 500, y0 = 900, x1 = 600, y1 = 901\<rparr>]"]
  by simp

section \<open>Auxiliary facts\<close>

lemma ascii_eq_iff: "ascii s = ascii t \<longleftrightarrow> s = t"
  unfolding ascii_def using inj_of_char [where ?'a = nat] by (simp add: inj_map_eq_map)

lemma ascii_nonempty: "s \<noteq> [] \<Longrightarrow> ascii s \<noteq> []"
  by (simp add: ascii_def)

lemma split_all_nonempty: "split_all sep s \<noteq> []"
  by (induction s) auto

lemma hd_split_all: "hd (split_all sep s) = takeWhile (\<lambda>c. c \<noteq> sep) s"
  by (induction s) auto

lemma scan_lines_flat:
  "scan_lines wts uls n ls st = scan_flat wts (map (\<lambda>line. (uls, n, line)) ls) st"
  by (induction ls arbitrary: st) (auto split: sum.splits)

lemma scan_flat_append:
  "scan_flat wts (xs @ ys) st =
     (case scan_flat wts xs st of (Some e, st') \<Rightarrow> (Some e, st') | (None, st') \<Rightarrow> scan_flat wts ys st')"
proof (induction xs arbitrary: st)
  case Nil
  show ?case by simp
next
  case (Cons x xs)
  obtain uls n line where x: "x = (uls, n, line)" by (cases x)
  show ?case by (simp add: x Cons.IH split: sum.splits)
qed

lemma scan_blocks_flat:
  "scan_blocks wts uls n bs st =
     scan_flat wts (map (\<lambda>line. (uls, n, line)) (concat (map block_lines bs))) st"
proof (induction bs arbitrary: st)
  case Nil
  show ?case by simp
next
  case (Cons b bs)
  show ?case
    by (cases b) (simp_all add: Cons.IH scan_lines_flat scan_flat_append split: prod.splits option.splits)
qed

lemma scan_pages_flat:
  "scan_pages wts n doc st = scan_flat wts (doc_lines n doc) st"
  by (induction doc arbitrary: n st) (simp_all add: scan_blocks_flat scan_flat_append split: prod.splits option.splits)



lemma numbered_match_nonempty: "numbered_match s \<noteq> Some []"
  by (auto simp: numbered_match_def split: if_splits)

lemma saved_question_inv:
  assumes "\<And>d u. acc_number d \<noteq> [] \<Longrightarrow> P (grammar_question d u)"
    and "\<forall>q \<in> set qs. P q"
    and "\<forall>d. data = Some d \<longrightarrow> acc_number d \<noteq> []"
  shows "\<forall>q \<in> set (process_and_save_grammar_question data uls qs). P q"
  using assms by (auto simp: process_and_save_grammar_question_def split: option.splits)

lemma process_line_inv:
  assumes G: "\<And>d u. acc_number d \<noteq> [] \<Longrightarrow> P (grammar_question d u)"
    and V: "\<And>m u k sp lt q. vocab_line m u k sp lt = Inr (Some q) \<Longrightarrow> P q"
    and step: "process_line wts uls n line st = Inr st'"
    and qs: "\<forall>q \<in> set (questions st). P q"
    and open_q: "\<forall>d. current_grammar_q_data st = Some d \<longrightarrow> acc_number d \<noteq> []"
  shows "(\<forall>q \<in> set (questions st'). P q) \<and>
         (\<forall>d. current_grammar_q_data st' = Some d \<longrightarrow> acc_number d \<noteq> [])"
proof -
  have S: "\<forall>q \<in> set (process_and_save_grammar_question (current_grammar_q_data st) uls
              (questions st)). P q"
    by (rule saved_question_inv [where P = P]) (use G qs open_q in auto)
  show ?thesis
    using step qs open_q S V
    by (auto simp: process_line_def Let_def numbered_match_nonempty
          split: if_splits option.splits sum.splits)
qed

lemma scan_flat_inv:
  assumes G: "\<And>d u. acc_number d \<noteq> [] \<Longrightarrow> P (grammar_question d u)"
    and V: "\<And>m u k sp lt q. vocab_line m u k sp lt = Inr (Some q) \<Longrightarrow> P q"
  shows "scan_flat wts ls st = (r, st') \<Longrightarrow>
         (\<forall>q \<in> set (questions st). P q) \<and>
         (\<forall>d. current_grammar_q_data st = Some d \<longrightarrow> acc_number d \<noteq> []) \<Longrightarrow>
         (\<forall>q \<in> set (questions st'). P q) \<and>
         (\<forall>d. current_grammar_q_data st' = Some d \<longrightarrow> acc_number d \<noteq> [])"
proof (induction ls arbitrary: st)
  case Nil
  then show ?case by simp
next
  case (Cons x ls)
  obtain uls n line where x: "x = (uls, n, line)" by (cases x)
  show ?case
  proof (cases "process_line wts uls n line st")
    case (Inl e)
    with Cons.prems x show ?thesis by simp
  next
    case (Inr st1)
    have "(\<forall>q \<in> set (questions st1). P q) \<and>
          (\<forall>d. current_grammar_q_data st1 = Some d \<longrightarrow> acc_number d \<noteq> [])"
      by (rule process_line_inv [where P = P and st = st, OF _ _ Inr])
         (use G V Cons.prems(2) in auto)
    moreover have "scan_flat wts ls st1 = (r, st')"
      using Cons.prems(1) x Inr by simp
    ultimately show ?thesis using Cons.IH by blast
  qed
qed

lemma scan_document_inv:
  assumes G: "\<And>d u. acc_number d \<noteq> [] \<Longrightarrow> P (grammar_question d u)"
    and V: "\<And>m u k sp lt q. vocab_line m u k sp lt = Inr (Some q) \<Longrightarrow> P q"
  shows "\<forall>q \<in> set (extract_grammar_vocab_questions wts doc). P q"
proof -
  obtain r st where sc: "scan_flat wts (doc_lines 0 doc) initial_state = (r, st)"
    by (cases "scan_flat wts (doc_lines 0 doc) initial_state")
  have inv: "(\<forall>q \<in> set (questions st). P q) \<and>
          (\<forall>d. current_grammar_q_data st = Some d \<longrightarrow> acc_number d \<noteq> [])"
    by (rule scan_flat_inv [where P = P and st = initial_state, OF _ _ sc])
       (use G V in \<open>auto simp: initial_state_def\<close>)
  have "\<forall>q \<in> set (process_and_save_grammar_question (current_grammar_q_data st) u
                (questions st)). P q" for u
    by (rule saved_question_inv [where P = P]) (use G inv in auto)
  with inv show ?thesis
    by (simp add: extract_grammar_vocab_questions_def scan_document_def scan_pages_flat sc
          split: option.splits)
qed

text \<open>The definitions a concrete run of the scan unfolds.\<close>

lemmas eval_defs = process_line_def Let_def contains_def strip_def is_space_def mondai_match_def
  numbered_match_def is_digit_def digit_zero_def nd_zeros_def py_int_def digit_val_def vocab_line_def split1_def get_def
  process_and_save_grammar_question_def plain_def bold_def text_page_def get_underlines_def
  initial_state_def ascii_def sub_ordinal_def hd_split_all

lemma synonym_line_fails:
  assumes "section_name s = Vocab" and "current_mondai s = 4"
    and "lt = strip (concat (map span_text l))"
    and "\<not> list_ex (\<lambda>wt. contains wt lt) wts"
    and "\<not> contains [12418, 12376, 12539, 12372, 12356] lt"
    and "\<not> contains [12406, 12435, 12413, 12358, 12539, 12393, 12387, 12363, 12356] lt"
    and "mondai_match lt = None"
    and "61 \<in> set lt" and "46 \<notin> set (takeWhile (\<lambda>c. c \<noteq> 61) lt)"
  shows "process_line wts u k l s = Inl IndexError"
proof -
  have "lt \<noteq> []" using assms(8) by auto
  moreover have "length (split1 46 (takeWhile (\<lambda>c. c \<noteq> 61) lt)) = 1"
    using assms(9) by (simp add: split1_def)
  ultimately show ?thesis
    using assms
    by (simp add: process_line_def Let_def vocab_line_def split1_def get_def)
qed

lemma type_names_distinct:
  "ascii ''Grammar/Reading'' \<noteq> ascii ''Sentence Construction''"
  "ascii ''Fill-in-the-Blank'' \<noteq> ascii ''Sentence Construction''"
  "ascii ''Vocabulary (Kanji/Kana)'' \<noteq> ascii ''Sentence Construction''"
  "ascii ''Synonym'' \<noteq> ascii ''Sentence Construction''"
  by (simp_all add: ascii_eq_iff)

section \<open>Failures during the scan\<close>

text \<open>
  C3 (as the code has it). The scan of a document has one handler, around all pages: when
  the processing of a line raises, the scan ends there. The records returned are the ones
  appended before that line; the lines and pages after it contribute nothing and the open
  grammar question is not flushed. A mondai-4 line of the vocabulary section with an
  \<open>=\<close> and no period to the left of it is such a line (\<open>IndexError\<close>).
\<close>

theorem scan_stops_at_first_failure:
  assumes "doc_lines 0 doc = pre @ (uls, n, line) # post"
    and "scan_flat wts pre initial_state = (None, st)"
    and "process_line wts uls n line st = Inl e"
  shows "scan_document wts doc = (Some e, questions st) \<and>
         extract_grammar_vocab_questions wts doc = questions st \<and>
         (section_name s = Vocab \<and> current_mondai s = 4 \<and>
          \<not> list_ex (\<lambda>wt. contains wt (strip (concat (map span_text l)))) wts \<and>
          \<not> contains [12418, 12376, 12539, 12372, 12356] (strip (concat (map span_text l))) \<and>
          \<not> contains [12406, 12435, 12413, 12358, 12539, 12393, 12387, 12363, 12356]
               (strip (concat (map span_text l))) \<and>
          mondai_match (strip (concat (map span_text l))) = None \<and>
          61 \<in> set (strip (concat (map span_text l))) \<and>
          46 \<notin> set (takeWhile (\<lambda>c. c \<noteq> 61) (strip (concat (map span_text l)))) \<longrightarrow>
          process_line wts u k l s = Inl IndexError)"
  using assms synonym_line_fails [of s "strip (concat (map span_text l))" l wts u k]
  by (simp add: extract_grammar_vocab_questions_def scan_document_def scan_pages_flat
        scan_flat_append)


theorem scan_stops_at_first_failure_witness:
  "scan_document []
     [text_page [[21839, 38988, 52], ascii ''1.x=y'', ascii ''a=b'', ascii ''2.u=v''],
      text_page [ascii ''3.p=q'']]
   = (Some IndexError,
      [\<lparr>qtype = ascii ''Synonym'', number = ascii ''1'', dialogue = [], question = ascii ''x'',
        choices = [], answer = ascii ''y'', source_page = 1\<rparr>])"
  using scan_stops_at_first_failure
    [of "[text_page [[21839, 38988, 52], ascii ''1.x=y'', ascii ''a=b'', ascii ''2.u=v''],
          text_page [ascii ''3.p=q'']]"
        "[([], 0, [plain [21839, 38988, 52]]), ([], 0, [plain (ascii ''1.x=y'')])]"
        "[]" 0 "[plain (ascii ''a=b'')]"
        "[([], 0, [plain (ascii ''2.u=v'')]), ([], 1, [plain (ascii ''3.p=q'')])]"
        "[]"
        "\<lparr>section_name = Vocab, current_mondai = 4, current_grammar_q_data = None,
          questions = [\<lparr>qtype = ascii ''Synonym'', number = ascii ''1'', dialogue = [],
            question = ascii ''x'', choices = [], answer = ascii ''y'', source_page = 1\<rparr>]\<rparr>"
        IndexError]
  by (simp add: eval_defs)

text \<open>
  C3 as stated fails: with the line \<open>a=b\<close> in mondai 4 the records of the two lines after
  it, one of them on the next page, are not produced; without that line they are.
\<close>


theorem later_records_lost_counterexample:
  "extract_grammar_vocab_questions []
     [text_page [[21839, 38988, 52], ascii ''a=b'', ascii ''2.u=v''], text_page [ascii ''3.p=q'']]
   = [] \<and>
   extract_grammar_vocab_questions []
     [text_page [[21839, 38988, 52], ascii ''2.u=v''], text_page [ascii ''3.p=q'']]
   = [\<lparr>qtype = ascii ''Synonym'', number = ascii ''2'', dialogue = [], question = ascii ''u'',
        choices = [], answer = ascii ''v'', source_page = 1\<rparr>,
      \<lparr>qtype = ascii ''Synonym'', number = ascii ''3'', dialogue = [], question = ascii ''p'',
        choices = [], answer = ascii ''q'', source_page = 2\<rparr>]"
  by (simp add: extract_grammar_vocab_questions_def scan_document_def eval_defs)

section \<open>Sentence construction\<close>

text \<open>
  C10. Every Sentence-Construction record has its number equal to its question: in
  mondai 5 of the vocabulary section a line with U+21D2 yields the record whose number
  and question are both the stripped text to the left of the first U+21D2, ordinal
  included.
\<close>


theorem sentence_construction_number_is_question:
  "(\<forall>q \<in> set (extract_grammar_vocab_questions wts doc).
      qtype q = ascii ''Sentence Construction'' \<longrightarrow> number q = question q) \<and>
   (8658 \<in> set lt \<longrightarrow>
      vocab_line 5 uls n sp lt =
        Inr (Some \<lparr>qtype = ascii ''Sentence Construction'',
                   number = strip (takeWhile (\<lambda>c. c \<noteq> 8658) lt), dialogue = [],
                   question = strip (takeWhile (\<lambda>c. c \<noteq> 8658) lt), choices = [],
                   answer = strip (tl (dropWhile (\<lambda>c. c \<noteq> 8658) lt)),
                   source_page = n + 1\<rparr>))"
proof
  show "\<forall>q \<in> set (extract_grammar_vocab_questions wts doc).
      qtype q = ascii ''Sentence Construction'' \<longrightarrow> number q = question q"
  proof (rule scan_document_inv)
    fix d u
    show "qtype (grammar_question d u) = ascii ''Sentence Construction'' \<longrightarrow>
          number (grammar_question d u) = question (grammar_question d u)"
      by (simp add: grammar_question_def Let_def type_names_distinct)
  next
    fix m u k sp lt q
    assume "vocab_line m u k sp lt = Inr (Some q)"
    then show "qtype q = ascii ''Sentence Construction'' \<longrightarrow> number q = question q"
      by (auto simp: vocab_line_def Let_def type_names_distinct
            split: if_splits option.splits sum.splits prod.splits)
  qed
next
  show "8658 \<in> set lt \<longrightarrow>
      vocab_line 5 uls n sp lt =
        Inr (Some \<lparr>qtype = ascii ''Sentence Construction'',
                   number = strip (takeWhile (\<lambda>c. c \<noteq> 8658) lt), dialogue = [],
                   question = strip (takeWhile (\<lambda>c. c \<noteq> 8658) lt), choices = [],
                   answer = strip (tl (dropWhile (\<lambda>c. c \<noteq> 8658) lt)),
                   source_page = n + 1\<rparr>)"
    by (simp add: vocab_line_def split1_def)
qed

theorem sentence_construction_witness:
  "\<lparr>qtype = ascii ''Sentence Construction'', number = ascii ''1.a b'', dialogue = [],
     question = ascii ''1.a b'', choices = [], answer = ascii ''b a'', source_page = 1\<rparr>
     \<in> set (extract_grammar_vocab_questions []
              [text_page [[21839, 38988, 53], ascii ''1.a b '' @ [8658] @ ascii '' b a'']]) \<and>
   vocab_line 5 [] 0 [] (ascii ''1.a b '' @ [8658] @ ascii '' b a'') =
     Inr (Some \<lparr>qtype = ascii ''Sentence Construction'', number = ascii ''1.a b'', dialogue = [],
     question = ascii ''1.a b'', choices = [], answer = ascii ''b a'', source_page = 1\<rparr>)"
  using sentence_construction_number_is_question
    [of "[]" "[text_page [[21839, 38988, 53], ascii ''1.a b '' @ [8658] @ ascii '' b a'']]"
        "ascii ''1.a b '' @ [8658] @ ascii '' b a''" "[]" 0 "[]"]
  by (simp add: extract_grammar_vocab_questions_def scan_document_def eval_defs)

lemma strip_nonempty_iff: "strip s \<noteq> [] \<longleftrightarrow> (\<exists>c \<in> set s. \<not> is_space c)"
proof
  assume a: "strip s \<noteq> []"
  have "dropWhile is_space s \<noteq> []"
  proof
    assume "dropWhile is_space s = []"
    then have "strip s = []" by (simp only: strip_def rev.simps dropWhile.simps)
    with a show False by simp
  qed
  then show "\<exists>c \<in> set s. \<not> is_space c"
    by (simp add: dropWhile_eq_Nil_conv)
next
  assume "\<exists>c \<in> set s. \<not> is_space c"
  then have ne: "dropWhile is_space s \<noteq> []" by (auto simp: dropWhile_eq_Nil_conv)
  then have "\<not> is_space (hd (dropWhile is_space s))" by (rule hd_dropWhile)
  moreover have "hd (dropWhile is_space s) \<in> set (rev (dropWhile is_space s))"
    using ne by simp
  ultimately have "dropWhile is_space (rev (dropWhile is_space s)) \<noteq> []"
    by (auto simp: dropWhile_eq_Nil_conv)
  then show "strip s \<noteq> []" by (simp add: strip_def)
qed

lemma last_strip: "strip s \<noteq> [] \<Longrightarrow> \<not> is_space (last (strip s))"
proof -
  assume "strip s \<noteq> []"
  then have ne: "dropWhile is_space (rev (dropWhile is_space s)) \<noteq> []"
    by (simp add: strip_def)
  then have "\<not> is_space (hd (dropWhile is_space (rev (dropWhile is_space s))))"
    by (rule hd_dropWhile)
  then show ?thesis using ne by (simp add: strip_def last_rev)
qed

lemma is_space_newline: "is_space 10"
  by (simp add: is_space_def)

lemma not_digit_newline: "\<not> is_digit 10"
  by (simp add: is_digit_def digit_zero_def nd_zeros_def)

lemma not_digit_period: "\<not> is_digit 46"
  by (simp add: is_digit_def digit_zero_def nd_zeros_def)

lemma last_split_all:
  "s \<noteq> [] \<Longrightarrow> last s \<noteq> sep \<Longrightarrow> last (split_all sep s) \<noteq> []"
proof (induction s)
  case Nil
  then show ?case by simp
next
  case (Cons c cs)
  show ?case
  proof (cases "cs = []")
    case True
    with Cons.prems show ?thesis by simp
  next
    case False
    with Cons have IH: "last (split_all sep cs) \<noteq> []" by simp
    show ?thesis
    proof (cases "c = sep")
      case True
      then show ?thesis using IH by (simp add: split_all_nonempty)
    next
      case False
      then show ?thesis
        using IH by (cases "split_all sep cs") (auto simp: split_all_nonempty)
    qed
  qed
qed


lemma flush_listening_ok:
  assumes "fst cur \<noteq> []" and "list_ex (\<lambda>c. \<not> is_space c) fd"
  shows "listening_record_ok (flush_listening cur fd)"
proof -
  have ne: "strip fd \<noteq> []"
    using assms(2) by (auto simp: strip_nonempty_iff list_ex_iff)
  then have "last (strip fd) \<noteq> 10"
    using last_strip [of fd] is_space_newline by auto
  with ne have "last (split_all 10 (strip fd)) \<noteq> []"
    by (rule last_split_all)
  with ne assms(1) show ?thesis
    by (simp add: listening_record_ok_def flush_listening_def Let_def)
qed

lemma flush_open_ok:
  "listening_state_ok st \<Longrightarrow> list_all listening_record_ok (flush_open st)"
  by (auto simp: listening_state_ok_def flush_open_def flush_listening_ok split: option.splits)

lemma start_block_number:
  assumes "question_start_re bt"
  shows "hd (split_all 10 bt) \<noteq> []"
proof -
  from assms have "takeWhile is_digit bt \<noteq> []" by (simp add: question_start_re_def)
  then obtain c cs where bt: "bt = c # cs" and "is_digit c"
    by (cases bt) (auto split: if_splits)
  then have "c \<noteq> 10" using not_digit_newline by auto
  then show ?thesis by (simp add: bt hd_split_all)
qed

lemma start_block_seed:
  assumes "question_start_re (strip b)"
  shows "list_ex (\<lambda>c. \<not> is_space c) (last (split1 10 (strip b)) @ [10])"
proof -
  from assms have ne: "strip b \<noteq> []" by (auto simp: question_start_re_def)
  then have ns: "\<not> is_space (last (strip b))" by (rule last_strip)
  show ?thesis
  proof (cases "10 \<in> set (strip b)")
    case False
    then show ?thesis using ne ns by (auto simp: split1_def list_ex_iff)
  next
    case True
    then have dne: "dropWhile (\<lambda>c. c \<noteq> 10) (strip b) \<noteq> []"
      by (auto simp: dropWhile_eq_Nil_conv)
    then have "hd (dropWhile (\<lambda>c. c \<noteq> 10) (strip b)) = 10"
      using hd_dropWhile [of "\<lambda>c. c \<noteq> 10" "strip b"] by simp
    with dne obtain r where dw: "dropWhile (\<lambda>c. c \<noteq> 10) (strip b) = 10 # r"
      by (cases "dropWhile (\<lambda>c. c \<noteq> 10) (strip b)") auto
    have dec: "strip b = takeWhile (\<lambda>c. c \<noteq> 10) (strip b) @ 10 # r"
      using takeWhile_dropWhile_id [of "\<lambda>c. c \<noteq> 10" "strip b"] dw by simp
    have "r \<noteq> []"
    proof
      assume "r = []"
      with dec have "last (strip b) = 10" by (metis last_snoc)
      with ns is_space_newline show False by simp
    qed
    then have "last (strip b) = last r" using dec by (metis last_appendR last_ConsR list.distinct(1))
    with ns \<open>r \<noteq> []\<close> have "\<exists>c \<in> set r. \<not> is_space c" by (metis last_in_set)
    then show ?thesis using True dw by (auto simp: split1_def list_ex_iff)
  qed
qed

lemma listening_block_ok:
  assumes "listening_state_ok st"
  shows "listening_state_ok (listening_block wts n b st)"
proof -
  have "list_all listening_record_ok (flush_open st)"
    using assms by (rule flush_open_ok)
  then show ?thesis
    using assms start_block_number [of "strip b"] start_block_seed [of b]
    by (auto simp: listening_block_def Let_def listening_state_ok_def split: option.splits)
qed

lemma listening_blocks_ok:
  "listening_state_ok st \<Longrightarrow> listening_state_ok (listening_blocks wts n bs st)"
  by (induction bs arbitrary: st) (simp_all add: listening_block_ok)

lemma listening_pages_ok:
  "listening_state_ok st \<Longrightarrow> listening_state_ok (listening_pages wts n ps st)"
  by (induction ps arbitrary: n st) (simp_all add: listening_blocks_ok)

lemma extract_listening_ok:
  "list_all listening_record_ok (extract_listening_questions wts doc)"
  unfolding extract_listening_questions_def
  by (rule flush_open_ok, rule listening_pages_ok) (simp add: listening_state_ok_def)

lemma kanji_search_number: "kanji_search s = Some (g1, g2, g3) \<Longrightarrow> g1 \<noteq> []"
proof (induction s)
  case Nil
  then show ?case by simp
next
  case (Cons c cs)
  show ?case
  proof (cases "kanji_match_here (c # cs)")
    case None
    with Cons show ?thesis by simp
  next
    case (Some g)
    with Cons.prems have "kanji_match_here (c # cs) = Some (g1, g2, g3)" by simp
    then show ?thesis
      by (auto simp: kanji_match_here_def Let_def split: if_splits option.splits)
  qed
qed

lemma numbered_line_number:
  assumes "numbered_match lt \<noteq> None"
  shows "hd (split_all 46 lt) \<noteq> []"
proof -
  from assms have "takeWhile is_digit lt \<noteq> []"
    by (auto simp: numbered_match_def split: if_splits)
  then obtain c cs where lt: "lt = c # cs" and "is_digit c"
    by (cases lt) (auto split: if_splits)
  then have "c \<noteq> 46" using not_digit_period by auto
  then show ?thesis by (simp add: lt hd_split_all)
qed

lemma vocab_line_ok:
  assumes "vocab_line m u k sp lt = Inr (Some q)"
  shows "vocab_record_ok q"
  using assms numbered_line_number [of lt]
  by (auto simp: vocab_line_def Let_def vocab_record_ok_def ascii_eq_iff
        dest: kanji_search_number
        split: if_splits option.splits sum.splits prod.splits)

lemma grammar_question_ok:
  "acc_number d \<noteq> [] \<Longrightarrow> vocab_record_ok (grammar_question d u)"
  by (simp add: grammar_question_def Let_def vocab_record_ok_def)

text \<open>
  \<open>split_all\<close> one separator at a time, for running it on a given string; from here on
  its defining equations are used only where they are named.
\<close>

lemma tl_split_all:
  "tl (split_all sep s) =
     (if sep \<in> set s then split_all sep (tl (dropWhile (\<lambda>c. c \<noteq> sep) s)) else [])"
proof (induction s)
  case Nil
  show ?case by simp
next
  case (Cons c cs)
  show ?case
  proof (cases "c = sep")
    case True
    then show ?thesis by simp
  next
    case False
    then show ?thesis using Cons.IH by simp
  qed
qed

lemma split_all_unfold:
  "split_all sep s =
     (if sep \<in> set s
      then takeWhile (\<lambda>c. c \<noteq> sep) s # split_all sep (tl (dropWhile (\<lambda>c. c \<noteq> sep) s))
      else [s])"
proof -
  have "split_all sep s = hd (split_all sep s) # tl (split_all sep s)"
    using split_all_nonempty [of sep s] by simp
  also have "\<dots> = (if sep \<in> set s
      then takeWhile (\<lambda>c. c \<noteq> sep) s # split_all sep (tl (dropWhile (\<lambda>c. c \<noteq> sep) s))
      else [s])"
    by (simp only: hd_split_all tl_split_all) (auto simp: takeWhile_eq_all_conv)
  finally show ?thesis .
qed

lemma split_all_step:
  "sep \<in> set s \<Longrightarrow>
   split_all sep s =
     takeWhile (\<lambda>c. c \<noteq> sep) s # split_all sep (tl (dropWhile (\<lambda>c. c \<noteq> sep) s))"
  by (subst split_all_unfold) simp

lemma split_all_last: "sep \<notin> set s \<Longrightarrow> split_all sep s = [s]"
  by (subst split_all_unfold) simp

declare split_all.simps [simp del]

lemmas listening_eval_defs = extract_listening_questions_def listening_block_def Let_def
  question_start_re_def flush_open_def flush_listening_def contains_def strip_def is_space_def
  is_digit_def digit_zero_def nd_zeros_def split1_def ascii_def split_all_step split_all_last

section \<open>Fields of the emitted records\<close>

text \<open>
  C5 (as the code has it). Every record has a non-empty type. Every Listening record has
  a non-empty number and a non-empty question. Every record of the grammar and vocabulary
  scan has one of the five other types, and a Grammar/Reading, Fill-in-the-Blank or
  Vocabulary (Kanji/Kana) record has a non-empty number. Nothing more holds: the
  question of a record of that scan, and the number of a Synonym or
  Sentence-Construction record, can be empty.
\<close>


theorem emitted_records_fields:
  "(\<forall>q \<in> set (extract_listening_questions wts ldoc).
      qtype q = ascii ''Listening'' \<and> number q \<noteq> [] \<and> question q \<noteq> []) \<and>
   (\<forall>q \<in> set (extract_grammar_vocab_questions wts doc).
      qtype q \<noteq> [] \<and>
      qtype q \<in> set [ascii ''Grammar/Reading'', ascii ''Fill-in-the-Blank'',
                     ascii ''Vocabulary (Kanji/Kana)'', ascii ''Synonym'',
                     ascii ''Sentence Construction''] \<and>
      (qtype q \<in> set [ascii ''Grammar/Reading'', ascii ''Fill-in-the-Blank'',
                      ascii ''Vocabulary (Kanji/Kana)''] \<longrightarrow> number q \<noteq> []))"
proof
  show "\<forall>q \<in> set (extract_listening_questions wts ldoc).
      qtype q = ascii ''Listening'' \<and> number q \<noteq> [] \<and> question q \<noteq> []"
    using extract_listening_ok [of wts ldoc]
    by (simp add: list_all_iff listening_record_ok_def)
next
  have all: "\<forall>q \<in> set (extract_grammar_vocab_questions wts doc). vocab_record_ok q"
  proof (rule scan_document_inv)
    fix d :: acc and u :: "rect list" assume "acc_number d \<noteq> []"
    then show "vocab_record_ok (grammar_question d u)" by (rule grammar_question_ok)
  next
    fix m u k sp lt q assume "vocab_line m u k sp lt = Inr (Some q)"
    then show "vocab_record_ok q" by (rule vocab_line_ok)
  qed
  have ne: "vocab_record_ok q \<Longrightarrow> qtype q \<noteq> []" for q
    unfolding vocab_record_ok_def ascii_def by auto
  show "\<forall>q \<in> set (extract_grammar_vocab_questions wts doc).
      qtype q \<noteq> [] \<and>
      qtype q \<in> set [ascii ''Grammar/Reading'', ascii ''Fill-in-the-Blank'',
                     ascii ''Vocabulary (Kanji/Kana)'', ascii ''Synonym'',
                     ascii ''Sentence Construction''] \<and>
      (qtype q \<in> set [ascii ''Grammar/Reading'', ascii ''Fill-in-the-Blank'',
                      ascii ''Vocabulary (Kanji/Kana)''] \<longrightarrow> number q \<noteq> [])"
  proof
    fix q assume "q \<in> set (extract_grammar_vocab_questions wts doc)"
    with all have ok: "vocab_record_ok q" by blast
    from ok ne [OF ok] show "qtype q \<noteq> [] \<and>
      qtype q \<in> set [ascii ''Grammar/Reading'', ascii ''Fill-in-the-Blank'',
                     ascii ''Vocabulary (Kanji/Kana)'', ascii ''Synonym'',
                     ascii ''Sentence Construction''] \<and>
      (qtype q \<in> set [ascii ''Grammar/Reading'', ascii ''Fill-in-the-Blank'',
                      ascii ''Vocabulary (Kanji/Kana)''] \<longrightarrow> number q \<noteq> [])"
      unfolding vocab_record_ok_def by blast
  qed
qed

theorem emitted_records_fields_witness:
  "\<lparr>qtype = ascii ''Listening'', number = [50, 30058], dialogue = ascii ''A: hello'',
     question = ascii ''What?'', choices = [], answer = [], source_page = 1\<rparr>
     \<in> set (extract_listening_questions []
              [[[50, 30058, 10] @ ascii ''A: hello'', ascii ''What?'']]) \<and>
   \<lparr>qtype = ascii ''Fill-in-the-Blank'', number = ascii ''7'', dialogue = [],
     question = ascii ''abc'', choices = [], answer = [], source_page = 1\<rparr>
     \<in> set (extract_grammar_vocab_questions [] [text_page [[21839, 38988, 51], ascii ''7. abc'']])"
  using emitted_records_fields
    [of "[]" "[[[50, 30058, 10] @ ascii ''A: hello'', ascii ''What?'']]"
        "[text_page [[21839, 38988, 51], ascii ''7. abc'']]"]
  by (simp add: listening_eval_defs extract_grammar_vocab_questions_def scan_document_def
        eval_defs is_span_marked_def replace1_def split del: if_split)

text \<open>
  C5 as stated fails: in mondai 5 the line made of U+21D2 and \<open>x\<close> gives a record with
  empty number and empty question, and in the grammar section the line \<open>1.\<close> gives a
  record with an empty question.
\<close>


theorem empty_number_and_question_counterexample:
  "extract_grammar_vocab_questions [] [text_page [[21839, 38988, 53], [8658] @ ascii ''x'']]
   = [\<lparr>qtype = ascii ''Sentence Construction'', number = [], dialogue = [], question = [],
        choices = [], answer = ascii ''x'', source_page = 1\<rparr>] \<and>
   extract_grammar_vocab_questions []
     [text_page [[12406, 12435, 12413, 12358, 12539, 12393, 12387, 12363, 12356],
                 [21839, 38988, 49], ascii ''1.'']]
   = [\<lparr>qtype = ascii ''Grammar/Reading'', number = ascii ''1'', dialogue = [], question = [],
        choices = [], answer = [], source_page = 1\<rparr>]"
  by (simp add: extract_grammar_vocab_questions_def scan_document_def eval_defs
        grammar_question_def is_span_marked_def replace1_def split del: if_split)

lemma split_all_single: "length (split_all sep s) \<le> 1 \<Longrightarrow> split_all sep s = [s]"
proof (cases "sep \<in> set s")
  case True
  assume le: "length (split_all sep s) \<le> 1"
  have "length (split_all sep s) =
        Suc (length (split_all sep (tl (dropWhile (\<lambda>c. c \<noteq> sep) s))))"
    using True by (simp add: split_all_step)
  moreover have "length (split_all sep (tl (dropWhile (\<lambda>c. c \<noteq> sep) s))) > 0"
    using split_all_nonempty [of sep "tl (dropWhile (\<lambda>c. c \<noteq> sep) s)"] by simp
  ultimately show ?thesis using le by simp
next
  case False
  then show ?thesis by (simp add: split_all_last)
qed

lemma flush_listening_parts:
  "flush_listening cur fd =
     \<lparr>qtype = ascii ''Listening'', number = fst cur,
      dialogue = join [10] (butlast (split_all 10 (strip fd))),
      question = last (split_all 10 (strip fd)),
      choices = [], answer = [], source_page = snd cur\<rparr>"
proof (cases "length (split_all 10 (strip fd)) > 1")
  case True
  then show ?thesis by (simp add: flush_listening_def Let_def)
next
  case False
  then have "split_all 10 (strip fd) = [strip fd]"
    by (intro split_all_single) simp
  then show ?thesis by (simp add: flush_listening_def Let_def)
qed

lemma all_le_Suc: "(\<forall>j \<le> Suc n. P j) \<longleftrightarrow> P 0 \<and> (\<forall>j \<le> n. P (Suc j))"
proof
  assume a: "\<forall>j \<le> Suc n. P j"
  then show "P 0 \<and> (\<forall>j \<le> n. P (Suc j))" by auto
next
  assume a: "P 0 \<and> (\<forall>j \<le> n. P (Suc j))"
  show "\<forall>j \<le> Suc n. P j"
  proof (intro allI impI)
    fix j assume "j \<le> Suc n"
    then show "P j" using a by (cases j) auto
  qed
qed

lemma all_less_Suc0: "(\<forall>j < Suc n. P j) \<longleftrightarrow> P 0 \<and> (\<forall>j < n. P (Suc j))"
proof
  assume a: "\<forall>j < Suc n. P j"
  then show "P 0 \<and> (\<forall>j < n. P (Suc j))" by auto
next
  assume a: "P 0 \<and> (\<forall>j < n. P (Suc j))"
  show "\<forall>j < Suc n. P j"
  proof (intro allI impI)
    fix j assume "j < Suc n"
    then show "P j" using a by (cases j) auto
  qed
qed

lemma find_sub_None_iff:
  "find_sub sub s = None \<longleftrightarrow> (\<forall>j \<le> length s. take (length sub) (drop j s) \<noteq> sub)"
proof (induction s)
  case Nil
  show ?case by auto
next
  case (Cons c cs)
  show ?case
    by (simp only: find_sub.simps length_Cons all_le_Suc [of "length cs"] drop_Suc_Cons drop_0)
       (simp add: Cons.IH)
qed

lemma find_sub_Some_iff:
  "find_sub sub s = Some i \<longleftrightarrow>
     i \<le> length s \<and> take (length sub) (drop i s) = sub \<and>
     (\<forall>j < i. take (length sub) (drop j s) \<noteq> sub)"
proof (induction s arbitrary: i)
  case Nil
  show ?case by auto
next
  case (Cons c cs)
  show ?case
  proof (cases "take (length sub) (c # cs) = sub")
    case True
    then show ?thesis by (cases i) auto
  next
    case False
    show ?thesis
    proof (cases i)
      case 0
      with False show ?thesis by simp
    next
      case (Suc k)
      have "find_sub sub (c # cs) = Some (Suc k) \<longleftrightarrow> find_sub sub cs = Some k"
        using False by auto
      also have "\<dots> \<longleftrightarrow> k \<le> length cs \<and> take (length sub) (drop k cs) = sub \<and>
          (\<forall>j < k. take (length sub) (drop j cs) \<noteq> sub)"
        by (rule Cons.IH)
      also have "\<dots> \<longleftrightarrow> Suc k \<le> length (c # cs) \<and>
          take (length sub) (drop (Suc k) (c # cs)) = sub \<and>
          (\<forall>j < Suc k. take (length sub) (drop j (c # cs)) \<noteq> sub)"
        using False by (simp add: all_less_Suc0 [of k])
      finally show ?thesis by (simp only: Suc)
    qed
  qed
qed

lemma occurs_at_iff:
  "(\<exists>pre post. s = pre @ sub @ post) \<longleftrightarrow>
   (\<exists>j \<le> length s. take (length sub) (drop j s) = sub)"
proof
  assume "\<exists>pre post. s = pre @ sub @ post"
  then obtain pre post where "s = pre @ sub @ post" by blast
  then have "length pre \<le> length s \<and> take (length sub) (drop (length pre) s) = sub" by simp
  then show "\<exists>j \<le> length s. take (length sub) (drop j s) = sub" by blast
next
  assume "\<exists>j \<le> length s. take (length sub) (drop j s) = sub"
  then obtain j where j: "j \<le> length s" "take (length sub) (drop j s) = sub" by blast
  have "s = take j s @ drop j s" by simp
  also have "drop j s = take (length sub) (drop j s) @ drop (length sub) (drop j s)"
    by (rule append_take_drop_id [symmetric])
  finally have "s = take j s @ sub @ drop (length sub) (drop j s)" using j(2) by simp
  then show "\<exists>pre post. s = pre @ sub @ post" by blast
qed

lemma contains_iff: "contains sub s \<longleftrightarrow> (\<exists>pre post. s = pre @ sub @ post)"
  unfolding contains_def occurs_at_iff find_sub_None_iff by blast

lemma replace1_first:
  assumes "contains old s"
  shows "\<exists>pre post. s = pre @ old @ post \<and>
           (\<forall>j < length pre. take (length old) (drop j s) \<noteq> old) \<and>
           replace1 s old new = pre @ new @ post"
proof -
  from assms obtain i where i: "find_sub old s = Some i" by (auto simp: contains_def)
  then have le: "i \<le> length s" and at: "take (length old) (drop i s) = old"
    and least: "\<forall>j < i. take (length old) (drop j s) \<noteq> old"
    by (simp_all add: find_sub_Some_iff)
  have "s = take i s @ drop i s" by simp
  also have "drop i s = take (length old) (drop i s) @ drop (length old) (drop i s)"
    by (rule append_take_drop_id [symmetric])
  finally have "s = take i s @ old @ drop (i + length old) s"
    using at by (simp add: add.commute)
  moreover have "length (take i s) = i" using le by simp
  moreover have "replace1 s old new = take i s @ new @ drop (i + length old) s"
    using i by (simp add: replace1_def)
  ultimately show ?thesis using least by metis
qed

lemma replace1_absent: "\<not> contains old s \<Longrightarrow> replace1 s old new = s"
  by (simp add: contains_def replace1_def)

section \<open>The question text of a grammar question\<close>

lemma spans_loop_eq:
  "spans_loop uls sps fa =
     (fst fa @ concat (map span_text sps),
      snd fa @ concat (map span_text (filter (\<lambda>sp. is_span_marked sp uls) sps)))"
  by (induction sps arbitrary: fa) simp_all

lemma lines_loop_eq:
  "lines_loop uls ls fa =
     (fst fa @ concat (map (\<lambda>l. concat (map span_text l) @ [10]) ls),
      snd fa @ concat (map span_text (filter (\<lambda>sp. is_span_marked sp uls) (concat ls))))"
  by (induction ls arbitrary: fa) (simp_all add: spans_loop_eq)

lemma strip_snoc_space:
  assumes "is_space c"
  shows "strip (s @ [c]) = strip s"
proof (cases "\<forall>x \<in> set s. is_space x")
  case True
  then have "dropWhile is_space (s @ [c]) = []" "dropWhile is_space s = []"
    using assms by simp_all
  then show ?thesis by (simp only: strip_def)
next
  case False
  then have "dropWhile is_space (s @ [c]) = dropWhile is_space s @ [c]"
    by (auto simp: dropWhile_append)
  then show ?thesis using assms by (simp add: strip_def)
qed

lemma lines_join:
  "concat (map (\<lambda>l. f l @ [10]) ls) = (if ls = [] then [] else join [10] (map f ls) @ [10])"
proof (induction ls)
  case Nil
  show ?case by simp
next
  case (Cons l ls)
  show ?case by (cases ls) (use Cons.IH in auto)
qed

lemma full_sentence_eq:
  "strip (fst (lines_loop uls ls ([], []))) = full_sentence_of ls"
  by (simp add: lines_loop_eq lines_join full_sentence_of_def strip_snoc_space is_space_newline)

lemma answer_text_eq:
  "strip (snd (lines_loop uls ls ([], []))) = answer_text_of ls uls"
  by (simp add: lines_loop_eq answer_text_of_def)

lemma grammar_question_eq:
  "grammar_question d uls =
     \<lparr>qtype = ascii ''Grammar/Reading'', number = acc_number d, dialogue = [],
      question =
        strip (sub_ordinal
          (if answer_text_of (acc_spans d) uls \<noteq> []
           then replace1 (full_sentence_of (acc_spans d)) (answer_text_of (acc_spans d) uls)
                  placeholder
           else full_sentence_of (acc_spans d))),
      choices = [], answer = answer_text_of (acc_spans d) uls, source_page = acc_page d\<rparr>"
  by (simp add: grammar_question_def Let_def full_sentence_eq answer_text_eq)

lemma stage1_question_eq:
  "stage1_question t uls =
     \<lparr>qtype = acc_type t, number = acc_number t, dialogue = [],
      question = strip (sub_ordinal (full_sentence_of (acc_spans t))),
      choices = [], answer = answer_text_of (acc_spans t) uls, source_page = acc_page t\<rparr>"
  by (simp add: stage1_question_def Let_def full_sentence_eq answer_text_eq)

lemmas question_eval_defs = full_sentence_of_def answer_text_of_def example_line_def
  plain_def bold_def is_span_marked_def strip_def is_space_def sub_ordinal_def is_digit_def
  digit_zero_def nd_zeros_def replace1_def placeholder_def ascii_def

lemma example_question:
  "grammar_question \<lparr>acc_number = [49], acc_spans = [example_line], acc_page = 1\<rparr> [] =
     \<lparr>qtype = ascii ''Grammar/Reading'', number = [49], dialogue = [],
      question = [12431, 12383, 12375, 12288, 12399, 12288, 32, 40, 95, 95, 95, 95, 95, 95, 41,
                  32, 12288, 12391, 12377, 12290],
      choices = [], answer = [12364, 12367, 12379, 12356], source_page = 1\<rparr>"
  by (simp add: grammar_question_eq question_eval_defs split del: if_split)

text \<open>
  C1 (as the code has it). In JLPT-pdf-csv.py the answer of a finalized grammar question
  is the answer text A, and with F the full sentence: when A is not empty and occurs in F,
  the question is F with the first occurrence of A replaced by the placeholder, then
  without a leading ordinal (digits, a period and the whitespace after it), then trimmed;
  otherwise the question is F without the ordinal, trimmed. In JLPT-pdf-csv-grammar.py
  stage 1 puts no placeholder: the question is F without the ordinal, trimmed. For the
  example line with its third word marked, the question keeps the ideographic spaces on
  both sides of the placeholder.
\<close>


theorem grammar_question_text:
  fixes d :: acc and t :: tacc and uls :: "rect list"
  defines "F \<equiv> full_sentence_of (acc_spans d)"
    and "A \<equiv> answer_text_of (acc_spans d) uls"
  shows "answer (grammar_question d uls) = A \<and>
     (A \<noteq> [] \<and> (\<exists>pre post. F = pre @ A @ post) \<longrightarrow>
        (\<exists>pre post. F = pre @ A @ post \<and>
           (\<forall>j < length pre. take (length A) (drop j F) \<noteq> A) \<and>
           question (grammar_question d uls) = strip (sub_ordinal (pre @ placeholder @ post)))) \<and>
     (A = [] \<or> \<not> (\<exists>pre post. F = pre @ A @ post) \<longrightarrow>
        question (grammar_question d uls) = strip (sub_ordinal F)) \<and>
     question (stage1_question t uls) = strip (sub_ordinal (full_sentence_of (acc_spans t))) \<and>
     answer (stage1_question t uls) = answer_text_of (acc_spans t) uls \<and>
     grammar_question \<lparr>acc_number = [49], acc_spans = [example_line], acc_page = 1\<rparr> [] =
       \<lparr>qtype = ascii ''Grammar/Reading'', number = [49], dialogue = [],
        question = [12431, 12383, 12375, 12288, 12399, 12288, 32, 40, 95, 95, 95, 95, 95, 95,
                    41, 32, 12288, 12391, 12377, 12290],
        choices = [], answer = [12364, 12367, 12379, 12356], source_page = 1\<rparr>"
proof -
  have 1: "answer (grammar_question d uls) = A"
    by (simp add: grammar_question_eq A_def)
  have 2: "A \<noteq> [] \<and> (\<exists>pre post. F = pre @ A @ post) \<longrightarrow>
        (\<exists>pre post. F = pre @ A @ post \<and>
           (\<forall>j < length pre. take (length A) (drop j F) \<noteq> A) \<and>
           question (grammar_question d uls) = strip (sub_ordinal (pre @ placeholder @ post)))"
  proof
    assume h: "A \<noteq> [] \<and> (\<exists>pre post. F = pre @ A @ post)"
    then have "contains A F" by (simp add: contains_iff)
    from replace1_first [OF this, of placeholder]
    obtain pre post where pp: "F = pre @ A @ post"
      "\<forall>j < length pre. take (length A) (drop j F) \<noteq> A"
      "replace1 F A placeholder = pre @ placeholder @ post" by blast
    have "question (grammar_question d uls) = strip (sub_ordinal (replace1 F A placeholder))"
      using h by (simp add: grammar_question_eq A_def F_def)
    with pp show "\<exists>pre post. F = pre @ A @ post \<and>
           (\<forall>j < length pre. take (length A) (drop j F) \<noteq> A) \<and>
           question (grammar_question d uls) = strip (sub_ordinal (pre @ placeholder @ post))"
      by metis
  qed
  have 3: "A = [] \<or> \<not> (\<exists>pre post. F = pre @ A @ post) \<longrightarrow>
        question (grammar_question d uls) = strip (sub_ordinal F)"
  proof
    assume "A = [] \<or> \<not> (\<exists>pre post. F = pre @ A @ post)"
    then have "A = [] \<or> \<not> contains A F" by (simp add: contains_iff)
    then show "question (grammar_question d uls) = strip (sub_ordinal F)"
      by (auto simp: grammar_question_eq A_def F_def replace1_absent)
  qed
  have 4: "question (stage1_question t uls) = strip (sub_ordinal (full_sentence_of (acc_spans t)))"
    by (simp add: stage1_question_eq)
  have 5: "answer (stage1_question t uls) = answer_text_of (acc_spans t) uls"
    by (simp add: stage1_question_eq)
  show ?thesis
    by (rule conjI [OF 1 conjI [OF 2 conjI [OF 3 conjI [OF 4 conjI [OF 5 example_question]]]]])
qed


theorem grammar_question_text_witness:
  "answer_text_of [example_line] [] = [12364, 12367, 12379, 12356] \<and>
   (\<exists>pre post.
      full_sentence_of [example_line] = pre @ answer_text_of [example_line] [] @ post \<and>
      (\<forall>j < length pre.
         take (length (answer_text_of [example_line] [])) (drop j (full_sentence_of [example_line]))
           \<noteq> answer_text_of [example_line] []) \<and>
      question (grammar_question \<lparr>acc_number = [49], acc_spans = [example_line], acc_page = 1\<rparr> [])
        = strip (sub_ordinal (pre @ placeholder @ post))) \<and>
   question (grammar_question \<lparr>acc_number = [49], acc_spans = [example_line], acc_page = 1\<rparr> [])
     = [12431, 12383, 12375, 12288, 12399, 12288, 32, 40, 95, 95, 95, 95, 95, 95, 41, 32,
        12288, 12391, 12377, 12290]"
proof -
  have a: "answer_text_of [example_line] [] = [12364, 12367, 12379, 12356]"
    by (simp add: question_eval_defs split del: if_split)
  have f: "full_sentence_of [example_line] =
      [49, 46, 12431, 12383, 12375, 12288, 12399, 12288] @ [12364, 12367, 12379, 12356] @
      [12288, 12391, 12377, 12290]"
    by (simp add: question_eval_defs split del: if_split)
  have h: "answer_text_of [example_line] [] \<noteq> [] \<and>
      (\<exists>pre post.
         full_sentence_of [example_line] = pre @ answer_text_of [example_line] [] @ post)"
    unfolding a using f by blast
  note t = grammar_question_text
    [where d = "\<lparr>acc_number = [49], acc_spans = [example_line], acc_page = 1\<rparr>"
       and uls = "[]"
       and t = "\<lparr>acc_number = [49], acc_spans = [example_line], acc_page = 1,
                  acc_type = ascii ''Grammar/Reading''\<rparr>"]
  have "\<exists>pre post.
      full_sentence_of [example_line] = pre @ answer_text_of [example_line] [] @ post \<and>
      (\<forall>j < length pre.
         take (length (answer_text_of [example_line] [])) (drop j (full_sentence_of [example_line]))
           \<noteq> answer_text_of [example_line] []) \<and>
      question (grammar_question \<lparr>acc_number = [49], acc_spans = [example_line], acc_page = 1\<rparr> [])
        = strip (sub_ordinal (pre @ placeholder @ post))"
    using conjunct1 [OF conjunct2 [OF t]] h by simp
  moreover have "question
      (grammar_question \<lparr>acc_number = [49], acc_spans = [example_line], acc_page = 1\<rparr> [])
     = [12431, 12383, 12375, 12288, 12399, 12288, 32, 40, 95, 95, 95, 95, 95, 95, 41, 32,
        12288, 12391, 12377, 12290]"
    using t by simp
  ultimately show ?thesis using a by blast
qed

text \<open>
  C1 as stated fails on its own example: the question the claim gives has lost the
  ideographic space before the marked word and has an ASCII space for the one after it;
  and stage 1 of JLPT-pdf-csv-grammar.py leaves the marked word in the question.
\<close>


theorem example_output_counterexample:
  "question (grammar_question \<lparr>acc_number = [49], acc_spans = [example_line], acc_page = 1\<rparr> [])
     \<noteq> [12431, 12383, 12375, 12288, 12399, 32, 40, 95, 95, 95, 95, 95, 95, 41, 32, 32,
         12391, 12377, 12290] \<and>
   question (stage1_question \<lparr>acc_number = [49], acc_spans = [example_line], acc_page = 1,
                               acc_type = ascii ''Grammar/Reading''\<rparr> [])
     = [12431, 12383, 12375, 12288, 12399, 12288, 12364, 12367, 12379, 12356, 12288, 12391,
        12377, 12290]"
proof
  show "question
      (grammar_question \<lparr>acc_number = [49], acc_spans = [example_line], acc_page = 1\<rparr> [])
     \<noteq> [12431, 12383, 12375, 12288, 12399, 32, 40, 95, 95, 95, 95, 95, 95, 41, 32, 32,
         12391, 12377, 12290]"
    unfolding example_question by simp
  show "question (stage1_question \<lparr>acc_number = [49], acc_spans = [example_line], acc_page = 1,
                               acc_type = ascii ''Grammar/Reading''\<rparr> [])
     = [12431, 12383, 12375, 12288, 12399, 12288, 12364, 12367, 12379, 12356, 12288, 12391,
        12377, 12290]"
    by (simp add: stage1_question_eq question_eval_defs split del: if_split)
qed

section \<open>The refinement pass\<close>

lemma question_key_not_answer: "ascii ''question'' \<noteq> ascii ''answer''"
  by (simp add: ascii_eq_iff)

lemma stripped_not_placeholder: "strip s \<noteq> placeholder"
proof
  assume eq: "strip s = placeholder"
  then have "strip s \<noteq> []" by (simp add: placeholder_def ascii_def)
  then have "\<not> is_space (last (strip s))" by (rule last_strip)
  then show False by (simp add: eq placeholder_def ascii_def is_space_def)
qed

lemma replace1_changes:
  assumes "contains old s" and "old \<noteq> new"
  shows "replace1 s old new \<noteq> s"
proof -
  from replace1_first [OF assms(1), of new]
  obtain pre post where "s = pre @ old @ post" "replace1 s old new = pre @ new @ post"
    by blast
  then show ?thesis using assms(2) by auto
qed

lemma refine_row_cases:
  "refine_row r =
     (if strip (row_get r (ascii ''answer'')) \<noteq> [] \<and>
         contains (strip (row_get r (ascii ''answer''))) (row_get r (ascii ''question''))
      then r(ascii ''question'' \<mapsto>
             replace1 (row_get r (ascii ''question'')) (strip (row_get r (ascii ''answer'')))
               placeholder)
      else r)"
  by (simp add: refine_row_def Let_def)

lemma refine_row_answer: "row_get (refine_row r) (ascii ''answer'') = row_get r (ascii ''answer'')"
  using question_key_not_answer by (auto simp: refine_row_cases row_get_def)

lemma refine_row_other: "k \<noteq> ascii ''question'' \<Longrightarrow> refine_row r k = r k"
  by (simp add: refine_row_cases)

lemmas row_eval_defs = refine_row_cases row_get_def strip_def is_space_def contains_def
  replace1_def placeholder_def ascii_def

text \<open>
  C4 (as the code has it). Refining a row twice gives the same as refining it once exactly
  when the trimmed answer is empty or does not occur in the question of the row refined
  once. It does occur there when the question holds the answer more than once, or when
  the answer is part of the placeholder.
\<close>


theorem refine_twice:
  "refine_row (refine_row r) = refine_row r \<longleftrightarrow>
     strip (row_get r (ascii ''answer'')) = [] \<or>
     \<not> (\<exists>pre post. row_get (refine_row r) (ascii ''question'') =
                       pre @ strip (row_get r (ascii ''answer'')) @ post)"
proof -
  let ?a = "strip (row_get r (ascii ''answer''))"
  let ?q' = "row_get (refine_row r) (ascii ''question'')"
  have step: "refine_row (refine_row r) =
      (if ?a \<noteq> [] \<and> contains ?a ?q'
       then (refine_row r)(ascii ''question'' \<mapsto> replace1 ?q' ?a placeholder)
       else refine_row r)"
    by (subst refine_row_cases) (simp only: refine_row_answer)
  show ?thesis
  proof (cases "?a \<noteq> [] \<and> contains ?a ?q'")
    case False
    then show ?thesis using step by (auto simp: contains_iff)
  next
    case True
    then have "replace1 ?q' ?a placeholder \<noteq> ?q'"
      using replace1_changes [of ?a ?q' placeholder] stripped_not_placeholder by blast
    moreover have "refine_row (refine_row r) (ascii ''question'') =
        Some (replace1 ?q' ?a placeholder)"
      using True step by simp
    ultimately have "refine_row (refine_row r) \<noteq> refine_row r"
      by (auto simp: row_get_def split: option.splits)
    then show ?thesis using True by (auto simp: contains_iff)
  qed
qed

theorem refine_twice_witness:
  "refine_row (refine_row [ascii ''question'' \<mapsto> ascii ''I am a student'',
                           ascii ''answer'' \<mapsto> ascii ''student''])
   = refine_row [ascii ''question'' \<mapsto> ascii ''I am a student'',
                 ascii ''answer'' \<mapsto> ascii ''student''] \<and>
   refine_row [ascii ''question'' \<mapsto> ascii ''I am a student'',
               ascii ''answer'' \<mapsto> ascii ''student''] (ascii ''question'')
   = Some (ascii ''I am a  (______) '')"
proof -
  let ?r = "[ascii ''question'' \<mapsto> ascii ''I am a student'',
             ascii ''answer'' \<mapsto> ascii ''student'']"
  have q: "row_get (refine_row ?r) (ascii ''question'') = ascii ''I am a  (______) ''"
    by (simp add: row_eval_defs split del: if_split)
  have a: "strip (row_get ?r (ascii ''answer'')) = ascii ''student''"
    by (simp add: row_eval_defs split del: if_split)
  have "\<not> contains (strip (row_get ?r (ascii ''answer'')))
             (row_get (refine_row ?r) (ascii ''question''))"
    unfolding q a by (simp add: contains_def ascii_def split del: if_split)
  then have "\<not> (\<exists>pre post. row_get (refine_row ?r) (ascii ''question'') =
                       pre @ strip (row_get ?r (ascii ''answer'')) @ post)"
    unfolding contains_iff .
  then have "refine_row (refine_row ?r) = refine_row ?r"
    using refine_twice [of ?r] by blast
  moreover have "refine_row ?r (ascii ''question'') = Some (ascii ''I am a  (______) '')"
    by (simp add: row_eval_defs split del: if_split)
  ultimately show ?thesis by blast
qed

text \<open>
  C4 as stated fails: with the question \<open>aa\<close> and the answer \<open>a\<close> the first pass replaces
  the first \<open>a\<close> and the second pass the other one.
\<close>


theorem refine_twice_counterexample:
  "refine_row (refine_row [ascii ''question'' \<mapsto> ascii ''aa'', ascii ''answer'' \<mapsto> ascii ''a''])
   \<noteq> refine_row [ascii ''question'' \<mapsto> ascii ''aa'', ascii ''answer'' \<mapsto> ascii ''a'']"
proof
  let ?r = "[ascii ''question'' \<mapsto> ascii ''aa'', ascii ''answer'' \<mapsto> ascii ''a'']"
  assume "refine_row (refine_row ?r) = refine_row ?r"
  then have "refine_row (refine_row ?r) (ascii ''question'') = refine_row ?r (ascii ''question'')"
    by simp
  moreover have "refine_row ?r (ascii ''question'') = Some (ascii '' (______) a'')"
    by (simp add: row_eval_defs split del: if_split)
  moreover have "refine_row (refine_row ?r) (ascii ''question'')
      = Some (ascii '' (______)  (______) '')"
    by (simp add: row_eval_defs split del: if_split)
  ultimately show False by (simp add: ascii_def)
qed

subsection \<open>The pass over a file\<close>

lemma dict_set_fresh: "k \<notin> fst ` set d \<Longrightarrow> dict_set k v d = d @ [(k, v)]"
  by (induction d) auto

lemma map_of_dict_set: "map_of (dict_set k v d) = (map_of d)(k \<mapsto> v)"
  by (induction d) (auto simp: fun_eq_iff)

lemma keys_dict_set:
  "map fst (dict_set k v d) = (if k \<in> fst ` set d then map fst d else map fst d @ [k])"
  by (induction d) auto

lemma read_fields:
  "distinct ks \<Longrightarrow> set ks \<inter> fst ` set d = {} \<Longrightarrow> length vs = length ks \<Longrightarrow>
   foldl (\<lambda>d kv. dict_set (fst kv) (Some (snd kv)) d) d (zip ks vs) = d @ zip ks (map Some vs)"
proof (induction ks arbitrary: d vs)
  case Nil
  then show ?case by simp
next
  case (Cons k ks)
  then obtain v vs' where vs: "vs = v # vs'" by (cases vs) auto
  have fresh: "k \<notin> fst ` set d" using Cons.prems(2) by auto
  have "set ks \<inter> fst ` set (d @ [(k, Some v)]) = {}"
    using Cons.prems(1,2) by auto
  then have "foldl (\<lambda>d kv. dict_set (fst kv) (Some (snd kv)) d) (d @ [(k, Some v)]) (zip ks vs')
      = (d @ [(k, Some v)]) @ zip ks (map Some vs')"
    using Cons.prems(1,3) vs by (intro Cons.IH) auto
  then show ?case using fresh by (simp add: vs dict_set_fresh)
qed

lemma dict_reader_row_full:
  assumes "distinct fns" and "length r = length fns"
  shows "dict_reader_row fns r = \<lparr>cells = zip fns (map Some r), restkey = None\<rparr>"
  using read_fields [of fns "[]" r] assms by (simp add: dict_reader_row_def Let_def)

lemma map_of_zip_Some:
  "map_of (zip ks (map Some vs)) k = map_option Some (map_of (zip ks vs) k)"
proof (induction ks arbitrary: vs)
  case Nil
  show ?case by simp
next
  case (Cons a ks)
  show ?case by (cases vs) (simp_all add: Cons.IH)
qed

lemma keys_zip: "length vs = length ks \<Longrightarrow> fst ` set (zip ks vs) = set ks"
  by (metis map_fst_zip set_map)

lemma not_contains_empty: "a \<noteq> [] \<Longrightarrow> \<not> contains a []"
  by (simp add: contains_def)

lemma row_step_full:
  assumes d: "distinct fns" and l: "length r = length fns"
  shows "row_step fns r = Inr (refined_fields fns r)"
proof -
  let ?m = "map_of (zip fns r)"
  let ?rw = "\<lparr>cells = zip fns (map Some r), restkey = None\<rparr>"
  let ?a = "strip (row_get ?m (ascii ''answer''))"
  let ?q = "row_get ?m (ascii ''question'')"
  have keys: "map fst (cells ?rw) = fns" using l by simp
  have ans: "(case map_of (cells ?rw) (ascii ''answer'') of None \<Rightarrow> Some [] | Some v \<Rightarrow> v)
      = Some (row_get ?m (ascii ''answer''))"
    by (simp add: map_of_zip_Some row_get_def split: option.splits)
  have qu: "(case map_of (cells ?rw) (ascii ''question'') of None \<Rightarrow> Some [] | Some v \<Rightarrow> v)
      = Some ?q"
    by (simp add: map_of_zip_Some row_get_def split: option.splits)
  have body: "refine_body ?rw =
      Inr (if ?a \<noteq> [] \<and> contains ?a ?q
           then ?rw\<lparr>cells := dict_set (ascii ''question'') (Some (replace1 ?q ?a placeholder))
                                (cells ?rw)\<rparr>
           else ?rw)"
    unfolding refine_body_def Let_def ans qu by simp
  show ?thesis
  proof (cases "?a \<noteq> [] \<and> contains ?a ?q")
    case False
    then have "refine_row ?m = ?m" by (auto simp: refine_row_def Let_def)
    moreover have "refine_body ?rw = Inr ?rw" using False body by auto
    moreover have "writerow fns ?rw = Inr (map (row_get ?m) fns)"
      using l by (auto simp: writerow_def list_ex_iff map_of_zip_Some row_get_def
                       split: option.splits)
    ultimately show ?thesis
      using d l by (simp add: row_step_def dict_reader_row_full refined_fields_def)
  next
    case True
    then have "?q \<noteq> []" using not_contains_empty [of ?a] by auto
    then have "?m (ascii ''question'') \<noteq> None"
      by (auto simp: row_get_def split: option.splits)
    then have qin: "ascii ''question'' \<in> set fns"
      using l by (metis map_of_zip_is_None)
    let ?rw' = "?rw\<lparr>cells := dict_set (ascii ''question'') (Some (replace1 ?q ?a placeholder))
                                (cells ?rw)\<rparr>"
    have rr: "refine_row ?m = ?m(ascii ''question'' \<mapsto> replace1 ?q ?a placeholder)"
      using True by (simp add: refine_row_def Let_def)
    have keys': "map fst (cells ?rw') = fns"
      using qin l by (simp add: keys_dict_set keys_zip)
    have vals: "map_of (cells ?rw') k = map_option Some (refine_row ?m k)" for k
      by (simp add: map_of_dict_set rr map_of_zip_Some)
    have "writerow fns ?rw' = Inr (map (row_get (refine_row ?m)) fns)"
      unfolding writerow_def keys' vals
      by (auto simp: list_ex_iff row_get_def split: option.splits)
    moreover have "refine_body ?rw = Inr ?rw'" using True body by auto
    ultimately show ?thesis
      using d l by (simp add: row_step_def dict_reader_row_full refined_fields_def)
  qed
qed

lemma refine_loop_full:
  assumes "distinct fns"
  shows "\<forall>r \<in> set rs. r \<noteq> [] \<longrightarrow> length r = length fns \<Longrightarrow>
         refine_loop fns rs out =
           (None, out @ map (refined_fields fns) (filter (\<lambda>r. r \<noteq> []) rs))"
proof (induction rs arbitrary: out)
  case Nil
  show ?case by simp
next
  case (Cons r rs)
  show ?case
  proof (cases "r = []")
    case True
    then show ?thesis using Cons by simp
  next
    case False
    then have "row_step fns r = Inr (refined_fields fns r)"
      using Cons.prems assms by (intro row_step_full) auto
    then show ?thesis using False Cons by simp
  qed
qed

lemma refine_loop_append:
  "refine_loop fns (xs @ ys) out =
     (case refine_loop fns xs out of
        (Some e, out') \<Rightarrow> (Some e, out')
      | (None, out') \<Rightarrow> refine_loop fns ys out')"
  by (induction xs arbitrary: out) (auto split: sum.splits)


lemma set_dict_set: "set (dict_set k v d) \<subseteq> insert (k, v) (set d)"
  by (induction d) auto

lemma read_fields_values:
  "\<forall>p \<in> set d. snd p \<noteq> None \<Longrightarrow>
   \<forall>p \<in> set (foldl (\<lambda>d kv. dict_set (fst kv) (Some (snd kv)) d) d xs). snd p \<noteq> None"
proof (induction xs arbitrary: d)
  case Nil
  then show ?case by simp
next
  case (Cons x xs)
  have "\<forall>p \<in> set (dict_set (fst x) (Some (snd x)) d). snd p \<noteq> None"
    using Cons.prems set_dict_set [of "fst x" "Some (snd x)" d] by auto
  then show ?case using Cons.IH by simp
qed

lemma refine_body_strings:
  assumes "\<forall>p \<in> set (cells rw). snd p \<noteq> None"
  shows "\<exists>rw'. refine_body rw = Inr rw' \<and> restkey rw' = restkey rw"
proof -
  have "map_of (cells rw) k \<noteq> Some None" for k
  proof
    assume "map_of (cells rw) k = Some None"
    then have "(k, None) \<in> set (cells rw)" by (rule map_of_SomeD)
    with assms show False by force
  qed
  from this [of "ascii ''answer''"] this [of "ascii ''question''"] show ?thesis
    by (auto simp: refine_body_def Let_def split: option.splits)
qed

lemma long_row_fails:
  assumes "length fns < length r"
  shows "row_step fns r = Inl ValueError"
proof -
  let ?d = "foldl (\<lambda>d kv. dict_set (fst kv) (Some (snd kv)) d) [] (zip fns r)"
  have rd: "dict_reader_row fns r = \<lparr>cells = ?d, restkey = Some (drop (length fns) r)\<rparr>"
    using assms by (simp add: dict_reader_row_def Let_def)
  have "\<forall>p \<in> set ?d. snd p \<noteq> None"
    by (rule read_fields_values) simp
  then obtain rw' where "refine_body (dict_reader_row fns r) = Inr rw'"
    and "restkey rw' = Some (drop (length fns) r)"
    using refine_body_strings [of "dict_reader_row fns r"] rd by auto
  then show ?thesis by (simp add: row_step_def writerow_def)
qed

lemma map_of_fill:
  "map_of (foldl (\<lambda>d key. dict_set key None d) d ks) k =
     (if k \<in> set ks then Some None else map_of d k)"
  by (induction ks arbitrary: d) (auto simp: map_of_dict_set)

lemma short_row_fails:
  assumes "ascii ''answer'' \<in> set (drop (length r) fns)"
  shows "row_step fns r = Inl AttributeError"
proof -
  have "length r < length fns" using assms by (cases "length r < length fns") auto
  then have "map_of (cells (dict_reader_row fns r)) (ascii ''answer'') = Some None"
    using assms by (simp add: dict_reader_row_def Let_def map_of_fill)
  then have "refine_body (dict_reader_row fns r) = Inl AttributeError"
    by (simp add: refine_body_def Let_def)
  then show ?thesis by (simp add: row_step_def)
qed

lemma refined_fields_frame:
  assumes d: "distinct fns" and l: "length r = length fns" and j: "j < length fns"
  shows "(fns ! j \<noteq> ascii ''question'' \<longrightarrow> refined_fields fns r ! j = r ! j) \<and>
         (fns ! j = ascii ''question'' \<longrightarrow>
            (strip (row_get (map_of (zip fns r)) (ascii ''answer'')) \<noteq> [] \<and>
             (\<exists>pre post. r ! j =
                pre @ strip (row_get (map_of (zip fns r)) (ascii ''answer'')) @ post) \<longrightarrow>
               (\<exists>pre post.
                  r ! j = pre @ strip (row_get (map_of (zip fns r)) (ascii ''answer'')) @ post \<and>
                  (\<forall>i < length pre.
                     take (length (strip (row_get (map_of (zip fns r)) (ascii ''answer''))))
                       (drop i (r ! j))
                     \<noteq> strip (row_get (map_of (zip fns r)) (ascii ''answer''))) \<and>
                  refined_fields fns r ! j = pre @ placeholder @ post)) \<and>
            (strip (row_get (map_of (zip fns r)) (ascii ''answer'')) = [] \<or>
             \<not> (\<exists>pre post. r ! j =
                pre @ strip (row_get (map_of (zip fns r)) (ascii ''answer'')) @ post) \<longrightarrow>
               refined_fields fns r ! j = r ! j))"
proof -
  let ?m = "map_of (zip fns r)"
  let ?a = "strip (row_get ?m (ascii ''answer''))"
  have at: "?m (fns ! j) = Some (r ! j)"
    using d l j by (simp add: map_of_zip_nth)
  have cell: "refined_fields fns r ! j = row_get (refine_row ?m) (fns ! j)"
    using j by (simp add: refined_fields_def)
  have other: "fns ! j \<noteq> ascii ''question'' \<longrightarrow> refined_fields fns r ! j = r ! j"
    using at by (simp add: cell refine_row_other row_get_def)
  have q: "fns ! j = ascii ''question'' \<Longrightarrow> row_get ?m (ascii ''question'') = r ! j"
    using at by (simp add: row_get_def)
  have hit: "fns ! j = ascii ''question'' \<Longrightarrow> ?a \<noteq> [] \<Longrightarrow> contains ?a (r ! j) \<Longrightarrow>
      \<exists>pre post. r ! j = pre @ ?a @ post \<and>
         (\<forall>i < length pre. take (length ?a) (drop i (r ! j)) \<noteq> ?a) \<and>
         refined_fields fns r ! j = pre @ placeholder @ post"
  proof -
    assume k: "fns ! j = ascii ''question''" and ne: "?a \<noteq> []" and c: "contains ?a (r ! j)"
    from replace1_first [OF c, of placeholder]
    obtain pre post where pp: "r ! j = pre @ ?a @ post"
      "\<forall>i < length pre. take (length ?a) (drop i (r ! j)) \<noteq> ?a"
      "replace1 (r ! j) ?a placeholder = pre @ placeholder @ post" by blast
    have "refined_fields fns r ! j = replace1 (r ! j) ?a placeholder"
      using k ne c q by (simp add: cell refine_row_cases row_get_def)
    with pp show ?thesis by metis
  qed
  have miss: "fns ! j = ascii ''question'' \<Longrightarrow> ?a = [] \<or> \<not> contains ?a (r ! j) \<Longrightarrow>
      refined_fields fns r ! j = r ! j"
    using q at by (auto simp: cell refine_row_cases row_get_def)
  show ?thesis
    using other hit miss unfolding contains_iff by blast
qed


lemmas file_eval_defs = refine_with_manual_answers_def row_step_def dict_reader_row_def
  refine_body_def writerow_def Let_def strip_def is_space_def contains_def replace1_def
  placeholder_def ascii_def

text \<open>
  C9 (as the code has it). When the column names are distinct and every row that is not
  blank has as many fields as the header, the pass raises nothing and writes the header as
  it is and one row for each row that is not blank, in order, each with as many fields as
  it had; blank rows are skipped. In such a row only the field under \<open>question\<close> can
  change: with the answer trimmed of surrounding whitespace, when it is not empty and
  occurs in the question, the question is written with the first occurrence of the
  trimmed answer replaced by the placeholder; otherwise the question is written as it is.
  Every other field is written as it is, the answer untrimmed. When a row raises, the
  pass ends there: the rows before it are written, the row itself and the rows after it
  are not. A row with more fields than the header raises \<open>ValueError\<close>, and a row too
  short to have its answer field raises \<open>AttributeError\<close>.
\<close>


theorem refine_file:
  "(distinct fns \<and> (\<forall>r \<in> set rs. r \<noteq> [] \<longrightarrow> length r = length fns) \<longrightarrow>
      refine_with_manual_answers (fns # rs) =
        (None, fns # map (refined_fields fns) (filter (\<lambda>r. r \<noteq> []) rs)) \<and>
      (\<forall>r \<in> set rs. r \<noteq> [] \<longrightarrow> length (refined_fields fns r) = length r \<and>
         (\<forall>j < length fns.
            (fns ! j \<noteq> ascii ''question'' \<longrightarrow> refined_fields fns r ! j = r ! j) \<and>
            (fns ! j = ascii ''question'' \<longrightarrow>
               (strip (row_get (map_of (zip fns r)) (ascii ''answer'')) \<noteq> [] \<and>
                (\<exists>pre post. r ! j =
                   pre @ strip (row_get (map_of (zip fns r)) (ascii ''answer'')) @ post) \<longrightarrow>
                  (\<exists>pre post.
                     r ! j = pre @ strip (row_get (map_of (zip fns r)) (ascii ''answer'')) @ post \<and>
                     (\<forall>i < length pre.
                        take (length (strip (row_get (map_of (zip fns r)) (ascii ''answer''))))
                          (drop i (r ! j))
                        \<noteq> strip (row_get (map_of (zip fns r)) (ascii ''answer''))) \<and>
                     refined_fields fns r ! j = pre @ placeholder @ post)) \<and>
               (strip (row_get (map_of (zip fns r)) (ascii ''answer'')) = [] \<or>
                \<not> (\<exists>pre post. r ! j =
                   pre @ strip (row_get (map_of (zip fns r)) (ascii ''answer'')) @ post) \<longrightarrow>
                  refined_fields fns r ! j = r ! j))))) \<and>
   (refine_with_manual_answers (fns # before) = (None, out) \<and> bad \<noteq> [] \<and>
      row_step fns bad = Inl e \<longrightarrow>
        refine_with_manual_answers (fns # before @ bad # after) = (Some e, out)) \<and>
   (length fns < length long \<longrightarrow> row_step fns long = Inl ValueError) \<and>
   (ascii ''answer'' \<in> set (drop (length short) fns) \<longrightarrow> row_step fns short = Inl AttributeError)"
proof (intro conjI impI ballI allI)
  assume h: "distinct fns \<and> (\<forall>r \<in> set rs. r \<noteq> [] \<longrightarrow> length r = length fns)"
  then show "refine_with_manual_answers (fns # rs) =
        (None, fns # map (refined_fields fns) (filter (\<lambda>r. r \<noteq> []) rs))"
    using refine_loop_full [of fns rs "[fns]"] by (simp add: refine_with_manual_answers_def)
next
  fix r
  assume h: "distinct fns \<and> (\<forall>r \<in> set rs. r \<noteq> [] \<longrightarrow> length r = length fns)"
    and r: "r \<in> set rs" "r \<noteq> []"
  then show "length (refined_fields fns r) = length r"
    by (simp add: refined_fields_def)
next
  fix r j
  assume h: "distinct fns \<and> (\<forall>r \<in> set rs. r \<noteq> [] \<longrightarrow> length r = length fns)"
    and r: "r \<in> set rs" "r \<noteq> []" and j: "j < length fns"
  then have d: "distinct fns" and l: "length r = length fns" by auto
  note F = refined_fields_frame [OF d l j]
  {
    assume "fns ! j \<noteq> ascii ''question''"
    then show "refined_fields fns r ! j = r ! j" using F by blast
  next
    assume k: "fns ! j = ascii ''question''"
    {
      assume "strip (row_get (map_of (zip fns r)) (ascii ''answer'')) \<noteq> [] \<and>
                (\<exists>pre post. r ! j =
                   pre @ strip (row_get (map_of (zip fns r)) (ascii ''answer'')) @ post)"
      then show "\<exists>pre post.
                     r ! j = pre @ strip (row_get (map_of (zip fns r)) (ascii ''answer'')) @ post \<and>
                     (\<forall>i < length pre.
                        take (length (strip (row_get (map_of (zip fns r)) (ascii ''answer''))))
                          (drop i (r ! j))
                        \<noteq> strip (row_get (map_of (zip fns r)) (ascii ''answer''))) \<and>
                     refined_fields fns r ! j = pre @ placeholder @ post"
        using F k by blast
    next
      assume "strip (row_get (map_of (zip fns r)) (ascii ''answer'')) = [] \<or>
                \<not> (\<exists>pre post. r ! j =
                   pre @ strip (row_get (map_of (zip fns r)) (ascii ''answer'')) @ post)"
      then show "refined_fields fns r ! j = r ! j" using F k by blast
    }
  }
next
  assume "refine_with_manual_answers (fns # before) = (None, out) \<and> bad \<noteq> [] \<and>
      row_step fns bad = Inl e"
  then show "refine_with_manual_answers (fns # before @ bad # after) = (Some e, out)"
    by (simp add: refine_with_manual_answers_def refine_loop_append)
next
  assume "length fns < length long"
  then show "row_step fns long = Inl ValueError" by (rule long_row_fails)
next
  assume "ascii ''answer'' \<in> set (drop (length short) fns)"
  then show "row_step fns short = Inl AttributeError" by (rule short_row_fails)
qed


theorem refine_file_witness:
  "refine_with_manual_answers
     [[ascii ''number'', ascii ''question'', ascii ''answer''],
      [ascii ''1'', ascii ''I am a student'', ascii '' student ''],
      [],
      [ascii ''2'', ascii ''It is cold'', []]]
   = (None,
      [[ascii ''number'', ascii ''question'', ascii ''answer''],
       [ascii ''1'', ascii ''I am a  (______) '', ascii '' student ''],
       [ascii ''2'', ascii ''It is cold'', []]]) \<and>
   refine_with_manual_answers
     [[ascii ''number'', ascii ''question'', ascii ''answer''],
      [ascii ''1'', ascii ''I am a student'', ascii '' student ''],
      [],
      [ascii ''2'', ascii ''It is cold'', []],
      [ascii ''3''],
      [ascii ''4'', ascii ''x'', ascii ''y'']]
   = (Some AttributeError,
      [[ascii ''number'', ascii ''question'', ascii ''answer''],
       [ascii ''1'', ascii ''I am a  (______) '', ascii '' student ''],
       [ascii ''2'', ascii ''It is cold'', []]])"
proof -
  let ?fns = "[ascii ''number'', ascii ''question'', ascii ''answer'']"
  let ?rs = "[[ascii ''1'', ascii ''I am a student'', ascii '' student ''], [],
              [ascii ''2'', ascii ''It is cold'', []]]"
  let ?out = "[?fns, [ascii ''1'', ascii ''I am a  (______) '', ascii '' student ''],
               [ascii ''2'', ascii ''It is cold'', []]]"
  note T = refine_file
    [where fns = ?fns and rs = ?rs and before = ?rs and bad = "[ascii ''3'']"
       and after = "[[ascii ''4'', ascii ''x'', ascii ''y'']]" and out = ?out
       and e = AttributeError and short = "[ascii ''3'']"]
  have h: "distinct ?fns \<and> (\<forall>r \<in> set ?rs. r \<noteq> [] \<longrightarrow> length r = length ?fns)"
    by (simp add: ascii_def)
  have "refine_with_manual_answers (?fns # ?rs) =
      (None, ?fns # map (refined_fields ?fns) (filter (\<lambda>r. r \<noteq> []) ?rs))"
    using conjunct1 [OF T] h by blast
  also have "map (refined_fields ?fns) (filter (\<lambda>r. r \<noteq> []) ?rs) = tl ?out"
    by (simp add: refined_fields_def row_eval_defs split del: if_split)
  finally have first: "refine_with_manual_answers (?fns # ?rs) = (None, ?out)"
    by simp
  have "ascii ''answer'' \<in> set (drop (length [ascii ''3'']) ?fns)"
    by simp
  then have "row_step ?fns [ascii ''3''] = Inl AttributeError"
    using T by blast
  then have "refine_with_manual_answers
      (?fns # ?rs @ [ascii ''3''] # [[ascii ''4'', ascii ''x'', ascii ''y'']])
      = (Some AttributeError, ?out)"
    using T first by blast
  then show ?thesis using first by simp
qed

text \<open>
  C9 as stated fails. A row shorter than the header ends the pass, so of three rows one is
  written. The answer is trimmed before the test, so a row whose answer \<open>" x"\<close> is not a
  substring of its question \<open>"ax"\<close> still has its question changed. And with a column
  name that occurs twice the dict holds one value for both columns, so a field that is
  not the question is changed.
\<close>

theorem refine_file_counterexample:
  "refine_with_manual_answers
     [[ascii ''question'', ascii ''answer''],
      [ascii ''q1'', ascii ''a1''],
      [ascii ''q2''],
      [ascii ''q3'', ascii ''a3'']]
   = (Some AttributeError, [[ascii ''question'', ascii ''answer''], [ascii ''q1'', ascii ''a1'']]) \<and>
   \<not> (\<exists>pre post. ascii ''ax'' = pre @ ascii '' x'' @ post) \<and>
   refine_with_manual_answers
     [[ascii ''question'', ascii ''answer''], [ascii ''ax'', ascii '' x'']]
   = (None, [[ascii ''question'', ascii ''answer''], [ascii ''a (______) '', ascii '' x'']]) \<and>
   refine_with_manual_answers
     [[ascii ''a'', ascii ''a'', ascii ''question'', ascii ''answer''],
      [ascii ''1'', ascii ''2'', ascii ''q'', ascii ''x'']]
   = (None, [[ascii ''a'', ascii ''a'', ascii ''question'', ascii ''answer''],
             [ascii ''2'', ascii ''2'', ascii ''q'', ascii ''x'']])"
proof (intro conjI)
  show "refine_with_manual_answers
     [[ascii ''question'', ascii ''answer''],
      [ascii ''q1'', ascii ''a1''],
      [ascii ''q2''],
      [ascii ''q3'', ascii ''a3'']]
   = (Some AttributeError, [[ascii ''question'', ascii ''answer''], [ascii ''q1'', ascii ''a1'']])"
    by (simp add: file_eval_defs split del: if_split)
  have "\<not> contains (ascii '' x'') (ascii ''ax'')"
    by (simp add: contains_def ascii_def split del: if_split)
  then show "\<not> (\<exists>pre post. ascii ''ax'' = pre @ ascii '' x'' @ post)"
    unfolding contains_iff .
  show "refine_with_manual_answers
     [[ascii ''question'', ascii ''answer''], [ascii ''ax'', ascii '' x'']]
   = (None, [[ascii ''question'', ascii ''answer''], [ascii ''a (______) '', ascii '' x'']])"
    by (simp add: file_eval_defs split del: if_split)
  show "refine_with_manual_answers
     [[ascii ''a'', ascii ''a'', ascii ''question'', ascii ''answer''],
      [ascii ''1'', ascii ''2'', ascii ''q'', ascii ''x'']]
   = (None, [[ascii ''a'', ascii ''a'', ascii ''question'', ascii ''answer''],
             [ascii ''2'', ascii ''2'', ascii ''q'', ascii ''x'']])"
    by (simp add: file_eval_defs split del: if_split)
qed

section \<open>The listening segmenter\<close>

text \<open>
  C2 (as the code has it). Every block whose stripped text matches the start pattern
  starts a new question, after the flush of the open one: the number is the first line of
  the block (the whole line, not the matched label alone), and when the block has more
  than one line the accumulated text is seeded with the lines after the first. The flush
  splits the stripped accumulated text on newlines: the last part is the question and the
  parts before it, joined by newlines, are the dialogue, which is empty when there is one
  part only. For the blocks "1B\nS" and "Q", with B = U+756A and S, Q the two sentences of
  the example, the record has number "1B", dialogue S and question Q.
\<close>


theorem listening_start_and_flush:
  assumes "question_start_re (strip b)"
    and "\<not> list_ex (\<lambda>wt. contains wt (strip b)) wts"
  shows "current_question_data (listening_block wts n b st) =
           Some (takeWhile (\<lambda>c. c \<noteq> 10) (strip b), n + 1) \<and>
         l_questions (listening_block wts n b st) =
           (case current_question_data st of
              None \<Rightarrow> l_questions st
            | Some cur \<Rightarrow> l_questions st @ [flush_listening cur (full_dialogue st)]) \<and>
         (10 \<in> set (strip b) \<longrightarrow>
            full_dialogue (listening_block wts n b st) =
              tl (dropWhile (\<lambda>c. c \<noteq> 10) (strip b)) @ [10]) \<and>
         flush_listening cur fd =
           \<lparr>qtype = ascii ''Listening'', number = fst cur,
            dialogue = join [10] (butlast (split_all 10 (strip fd))),
            question = last (split_all 10 (strip fd)),
            choices = [], answer = [], source_page = snd cur\<rparr> \<and>
         (length (split_all 10 (strip fd)) \<le> 1 \<longrightarrow>
            question (flush_listening cur fd) = strip fd \<and> dialogue (flush_listening cur fd) = []) \<and>
         extract_listening_questions []
           [[[49, 30058, 10, 24215, 21729, 65306, 12356, 12425, 12387, 12375, 12419, 12356,
              12414, 12379],
             [20309, 12434, 36023, 12356, 12414, 12377, 12363, 12290]]] =
           [\<lparr>qtype = ascii ''Listening'', number = [49, 30058],
             dialogue = [24215, 21729, 65306, 12356, 12425, 12387, 12375, 12419, 12356, 12414,
                         12379],
             question = [20309, 12434, 36023, 12356, 12414, 12377, 12363, 12290],
             choices = [], answer = [], source_page = 1\<rparr>]"
proof -
  have blk: "listening_block wts n b st =
           \<lparr>current_question_data = Some (takeWhile (\<lambda>c. c \<noteq> 10) (strip b), n + 1),
            full_dialogue = last (split1 10 (strip b)) @ [10],
            l_questions = flush_open st\<rparr>"
    using assms by (simp add: listening_block_def Let_def hd_split_all)
  have 1: "current_question_data (listening_block wts n b st) =
           Some (takeWhile (\<lambda>c. c \<noteq> 10) (strip b), n + 1)"
    by (simp add: blk)
  have 2: "l_questions (listening_block wts n b st) =
           (case current_question_data st of
              None \<Rightarrow> l_questions st
            | Some cur \<Rightarrow> l_questions st @ [flush_listening cur (full_dialogue st)])"
    by (simp add: blk flush_open_def)
  have 3: "10 \<in> set (strip b) \<longrightarrow>
            full_dialogue (listening_block wts n b st) =
              tl (dropWhile (\<lambda>c. c \<noteq> 10) (strip b)) @ [10]"
    by (simp add: blk split1_def)
  have 5: "length (split_all 10 (strip fd)) \<le> 1 \<longrightarrow>
            question (flush_listening cur fd) = strip fd \<and> dialogue (flush_listening cur fd) = []"
    by (simp add: flush_listening_def Let_def)
  have 6: "extract_listening_questions []
           [[[49, 30058, 10, 24215, 21729, 65306, 12356, 12425, 12387, 12375, 12419, 12356,
              12414, 12379],
             [20309, 12434, 36023, 12356, 12414, 12377, 12363, 12290]]] =
           [\<lparr>qtype = ascii ''Listening'', number = [49, 30058],
             dialogue = [24215, 21729, 65306, 12356, 12425, 12387, 12375, 12419, 12356, 12414,
                         12379],
             question = [20309, 12434, 36023, 12356, 12414, 12377, 12363, 12290],
             choices = [], answer = [], source_page = 1\<rparr>]"
    by (simp add: listening_eval_defs split del: if_split)
  show ?thesis
    by (rule conjI [OF 1 conjI [OF 2 conjI [OF 3 conjI [OF flush_listening_parts conjI [OF 5 6]]]]])
qed

theorem listening_start_and_flush_witness:
  "current_question_data
     (listening_block [] 0
        [49, 30058, 10, 24215, 21729, 65306, 12356, 12425, 12387, 12375, 12419, 12356, 12414,
         12379]
        \<lparr>current_question_data = None, full_dialogue = [], l_questions = []\<rparr>)
     = Some ([49, 30058], 1) \<and>
   full_dialogue
     (listening_block [] 0
        [49, 30058, 10, 24215, 21729, 65306, 12356, 12425, 12387, 12375, 12419, 12356, 12414,
         12379]
        \<lparr>current_question_data = None, full_dialogue = [], l_questions = []\<rparr>)
     = [24215, 21729, 65306, 12356, 12425, 12387, 12375, 12419, 12356, 12414, 12379, 10] \<and>
   current_question_data
     (listening_block [] 3 [50, 30058]
        \<lparr>current_question_data = Some ([49, 30058], 1),
          full_dialogue = [20309, 12434, 10], l_questions = []\<rparr>)
     = Some ([50, 30058], 4) \<and>
   l_questions
     (listening_block [] 3 [50, 30058]
        \<lparr>current_question_data = Some ([49, 30058], 1),
          full_dialogue = [20309, 12434, 10], l_questions = []\<rparr>)
     = [\<lparr>qtype = ascii ''Listening'', number = [49, 30058], dialogue = [],
         question = [20309, 12434], choices = [], answer = [], source_page = 1\<rparr>]"
proof -
  let ?b = "[49, 30058, 10, 24215, 21729, 65306, 12356, 12425, 12387, 12375, 12419, 12356,
             12414, 12379]"
  let ?st0 = "\<lparr>current_question_data = None, full_dialogue = [], l_questions = []\<rparr>"
  let ?st1 = "\<lparr>current_question_data = Some ([49, 30058], 1),
               full_dialogue = [20309, 12434, 10], l_questions = []\<rparr>"
  have h1: "question_start_re (strip ?b)"
    by (simp add: listening_eval_defs split del: if_split)
  have h2: "\<not> list_ex (\<lambda>wt. contains wt (strip ?b)) []"
    by simp
  have h3: "10 \<in> set (strip ?b)"
    by (simp add: listening_eval_defs split del: if_split)
  note t = listening_start_and_flush [OF h1 h2, of 0 ?st0 "([49, 30058], 1)" "[20309, 12434, 10]"]
  have g1: "question_start_re (strip [50, 30058])"
    by (simp add: listening_eval_defs split del: if_split)
  have g2: "\<not> list_ex (\<lambda>wt. contains wt (strip [50, 30058])) []"
    by simp
  note u = listening_start_and_flush [OF g1 g2, of 3 ?st1 "([49, 30058], 1)" "[20309, 12434, 10]"]
  have a: "current_question_data (listening_block [] 0 ?b ?st0) = Some ([49, 30058], 1)"
    using conjunct1 [OF t]
    by (simp add: strip_def is_space_def split del: if_split)
  have b: "full_dialogue (listening_block [] 0 ?b ?st0) =
      [24215, 21729, 65306, 12356, 12425, 12387, 12375, 12419, 12356, 12414, 12379, 10]"
    using conjunct1 [OF conjunct2 [OF conjunct2 [OF t]]] h3
    by (simp add: strip_def is_space_def split del: if_split)
  have c: "current_question_data (listening_block [] 3 [50, 30058] ?st1) = Some ([50, 30058], 4)"
    using conjunct1 [OF u]
    by (simp add: strip_def is_space_def split del: if_split)
  have d: "l_questions (listening_block [] 3 [50, 30058] ?st1) =
      [\<lparr>qtype = ascii ''Listening'', number = [49, 30058], dialogue = [],
         question = [20309, 12434], choices = [], answer = [], source_page = 1\<rparr>]"
    using conjunct1 [OF conjunct2 [OF u]] conjunct1 [OF conjunct2 [OF conjunct2 [OF conjunct2 [OF u]]]]
    by (simp add: strip_def is_space_def split_all_step split_all_last split del: if_split)
  show ?thesis by (rule conjI [OF a conjI [OF b conjI [OF c d]]])
qed

text \<open>
  C2 as stated fails: the split is by line and not at the end of the label. For the block
  "1B A\nB" followed by the block "Q" the matched label is "1B", but the number is the
  whole first line "1B A" and the text after the label on that line is in neither the
  dialogue nor the question.
\<close>


theorem first_line_number_counterexample:
  "extract_listening_questions [] [[[49, 30058, 32, 65, 10, 66], [81]]] =
   [\<lparr>qtype = ascii ''Listening'', number = [49, 30058, 32, 65], dialogue = [66],
     question = [81], choices = [], answer = [], source_page = 1\<rparr>]"
  by (simp add: listening_eval_defs split del: if_split)

text \<open>
  On a block that is the label alone \<open>split('\n', 1)[-1]\<close> is the block itself, so the
  label is also the first line of the accumulated text.
\<close>


lemma label_only_block_dialogue:
  "extract_listening_questions []
     [[[49, 30058],
       [24215, 21729, 65306, 12356, 12425, 12387, 12375, 12419, 12356, 12414, 12379],
       [20309, 12434, 36023, 12356, 12414, 12377, 12363, 12290]]] =
   [\<lparr>qtype = ascii ''Listening'', number = [49, 30058],
     dialogue = [49, 30058, 10, 24215, 21729, 65306, 12356, 12425, 12387, 12375, 12419, 12356,
                 12414, 12379],
     question = [20309, 12434, 36023, 12356, 12414, 12377, 12363, 12290],
     choices = [], answer = [], source_page = 1\<rparr>]"
  by (simp add: listening_eval_defs split del: if_split)

end
